theory Spec2Isabelle
  imports Main "HOL-Library.Word" "HOL-Library.Multiset"
begin

section \<open>The configuration package of saido (config/config.go)\<close>

text \<open>
  The package turns a decoded YAML document into a \<open>DashboardInfo\<close>: the nested
  \<open>hosts\<close> tree is flattened by \<open>parseConfig\<close>, every metric name is checked by
  \<open>inspector.Valid\<close>, and the poll interval is checked last.

  What is outside the file is a parameter of the model:
  \<^item> \<open>dec\<close> stands for \<open>mapstructure.Decode(conn, &c)\<close> into a zero \<open>Connection\<close>
    (its error is dropped by the source, so it is a function from the map to the struct);
  \<^item> \<open>Valid\<close> stands for \<open>inspector.Valid\<close>;
  \<^item> \<open>fmtv\<close> stands for \<open>fmt.Sprintf("%v", x)\<close> on an arbitrary decoded value.

  A \<open>*Connection\<close> is a pointer into a store of connections, since the source writes
  through the pointers it hands down. \<open>log.Fatal\<close> ends the process, a failed type
  assertion panics: both are error results, returned with the state reached. \<open>Port\<close>
  is an \<open>int32\<close> and \<open>PollInterval\<close> an \<open>int\<close> of 64 bits.
\<close>

subsection \<open>Decoded YAML values\<close>

text \<open>
  A value of Go type \<open>interface{}\<close> as yaml.v2 produces it. Mapping keys are scalars.
  A \<open>map[interface{}]interface{}\<close> is an association list with one entry per key; the
  order of the list is the order in which \<open>range\<close> visits the map in the run at hand
  (Go leaves that order unspecified, and it may differ from one run to the next).
  A \<open>nil\<close> map and an empty map are both \<open>[]\<close>: the source only reads and ranges over
  its maps, and the two behave alike there. Floating-point scalars are left out.
\<close>

datatype ykey = KStr string | KInt int | KBool bool | KNil

datatype yval =
    YNil
  | YStr string
  | YInt int
  | YBool bool
  | YSeq "yval list"
  | YMap "(ykey \<times> yval) list"

type_synonym ymap = "(ykey \<times> yval) list"

text \<open>\<open>v.(map[interface{}]interface{})\<close> in its two-result form: the map, or the nil map.\<close>

fun asMap :: "yval \<Rightarrow> ymap" where
  "asMap (YMap m) = m"
| "asMap _ = []"

fun isMap :: "yval \<Rightarrow> bool" where
  "isMap (YMap m) = True"
| "isMap _ = False"

subsection \<open>Formatting of keys\<close>

fun showNat :: "nat \<Rightarrow> string" where
  "showNat n =
     (if n < 10 then [''0123456789'' ! n]
      else showNat (n div 10) @ [''0123456789'' ! (n mod 10)])"

declare showNat.simps [simp del]

definition showInt :: "int \<Rightarrow> string" where
  "showInt i = (if i < 0 then ''-'' @ showNat (nat (- i)) else showNat (nat i))"

text \<open>\<open>fmt.Sprintf("%s", k)\<close>: a string prints as itself, any other scalar as a
  bad-verb marker.\<close>

fun sprintf_s :: "ykey \<Rightarrow> string" where
  "sprintf_s (KStr s) = s"
| "sprintf_s (KInt i) = ''%!s(int='' @ showInt i @ '')''"
| "sprintf_s (KBool b) = (if b then ''%!s(bool=true)'' else ''%!s(bool=false)'')"
| "sprintf_s KNil = ''%!s(<nil>)''"

text \<open>\<open>fmt.Sprintf("%v", k)\<close> on a scalar key.\<close>

fun sprintf_v :: "ykey \<Rightarrow> string" where
  "sprintf_v (KStr s) = s"
| "sprintf_v (KInt i) = showInt i"
| "sprintf_v (KBool b) = (if b then ''true'' else ''false'')"
| "sprintf_v KNil = ''<nil>''"

subsection \<open>Connection, Host, Config, DashboardInfo\<close>

record Connection =
  Type :: string
  Username :: string
  Password :: string
  PrivateKeyPath :: string
  PrivateKeyPassPhrase :: string
  Port :: "32 word"
  Host :: string

text \<open>The zero value \<open>Connection{}\<close>.\<close>

definition zeroConnection :: Connection where
  "zeroConnection =
     \<lparr>Type = '''', Username = '''', Password = '''', PrivateKeyPath = '''',
      PrivateKeyPassPhrase = '''', Port = 0, Host = ''''\<rparr>"

text \<open>A \<open>*Connection\<close> is an index into the store of allocated connections.\<close>

type_synonym ptr = nat

record Host =
  Address :: string
  Alias :: string
  Connection :: ptr

text \<open>The fields of \<open>Config\<close> carry their yaml tags as names.\<close>

record Config =
  hosts :: ymap
  metrics :: ymap
  title :: string
  poll_interval :: "64 word"

record DashboardInfo =
  Hosts :: "Host list"
  Metrics :: "string \<rightharpoonup> string"
  Title :: string
  PollInterval :: "64 word"

subsection \<open>Drivers\<close>

text \<open>\<open>driver.SSH\<close> with the fields \<open>ToDriver\<close> sets, and \<open>driver.Local\<close>.\<close>

record SSH =
  SSH_User :: string
  SSH_Host :: string
  SSH_Port :: int
  SSH_KeyFile :: string
  SSH_KeyPass :: string
  SSH_Password :: string
  SSH_CheckKnownHosts :: bool

datatype Driver = DriverSSH SSH | DriverLocal

text \<open>\<open>ToDriver\<close> on the connection its receiver points to. There is no error result:
  the switch has a default branch.\<close>

definition ToDriver :: "Connection \<Rightarrow> Driver" where
  "ToDriver conn =
     (if Type conn = ''ssh'' then
        DriverSSH \<lparr>SSH_User = Username conn, SSH_Host = Host conn,
                   SSH_Port = sint (Port conn), SSH_KeyFile = PrivateKeyPath conn,
                   SSH_KeyPass = PrivateKeyPassPhrase conn, SSH_Password = Password conn,
                   SSH_CheckKnownHosts = False\<rparr>
      else DriverLocal)"

subsection \<open>Program state, log and errors\<close>

text \<open>
  Calls of the logger that return are recorded with their arguments; a connection that
  is printed is recorded as the pointer's target at that moment (\<open>None\<close> for a pointer
  outside the store). \<open>log.Fatal\<close> and \<open>log.Fatalf\<close> end the process: they are errors,
  as are the two run-time panics the code can reach.
\<close>

datatype logentry =
    Info_Loading string string "Connection option"
  | Error_msg string
  | Debug_Host string "Connection option"

datatype error =
    Fatal string
  | Panic_type_assertion
  | Panic_nil_dereference

record pstate =
  heap :: "Connection list"
  logs :: "logentry list"

type_synonym 'a result = "(error + 'a) \<times> pstate"

definition deref :: "pstate \<Rightarrow> ptr \<Rightarrow> Connection option" where
  "deref st p = (if p < length (heap st) then Some (heap st ! p) else None)"

definition logf :: "logentry \<Rightarrow> pstate \<Rightarrow> pstate" where
  "logf e st = st\<lparr>logs := logs st @ [e]\<rparr>"

definition alloc :: "Connection \<Rightarrow> pstate \<Rightarrow> ptr \<times> pstate" where
  "alloc c st = (length (heap st), st\<lparr>heap := heap st @ [c]\<rparr>)"

subsection \<open>parseConnection\<close>

definition parseConnection :: "(ymap \<Rightarrow> Connection) \<Rightarrow> ymap \<Rightarrow> pstate \<Rightarrow> ptr result" where
  "parseConnection dec conn st =
     (let c = dec conn;
          c = (if Type c = ''ssh'' \<and> Port c = 0 then c\<lparr>Port := 22\<rparr> else c)
      in if Password c \<noteq> '''' \<and> PrivateKeyPath c \<noteq> '''' then
           (Inl (Fatal ''Cannot specify both password login and private key login on same connection''), st)
         else (case alloc c st of (p, st') \<Rightarrow> (Inr p, st')))"

subsection \<open>parseConfig\<close>

text \<open>The size of a decoded value, for the termination of the descent.\<close>

fun ysize :: "yval \<Rightarrow> nat" where
  "ysize (YMap m) = Suc (sum_list (map (\<lambda>kv. Suc (ysize (snd kv))) m))"
| "ysize (YSeq vs) = Suc (sum_list (map ysize vs))"
| "ysize _ = 0"

definition msize :: "ymap \<Rightarrow> nat" where
  "msize m = sum_list (map (\<lambda>kv. Suc (ysize (snd kv))) m)"

text \<open>
  The first part of \<open>parseConfig\<close>: the log line, and the \<open>connection\<close> entry when the
  node has one. A \<open>connection\<close> that is not a map is logged and decoded from the nil map.
\<close>

definition nodeConnection ::
  "(ymap \<Rightarrow> Connection) \<Rightarrow> string \<Rightarrow> string \<Rightarrow> ymap \<Rightarrow> ptr \<Rightarrow> pstate \<Rightarrow> ptr result" where
  "nodeConnection dec name host grp currentConnection st =
     (let st1 = logf (Info_Loading name host (deref st currentConnection)) st
      in case map_of grp (KStr ''connection'') of
           None \<Rightarrow> (Inr currentConnection, st1)
         | Some conn \<Rightarrow>
             (if isMap conn then parseConnection dec (asMap conn) st1
              else parseConnection dec []
                     (logf (Error_msg (''Failed to parse connection for '' @ name)) st1)))"

text \<open>
  The last part of \<open>parseConfig\<close>, for a node without \<open>children\<close>: the connection the
  node works with gets the node's key as its \<open>Host\<close>, through the pointer, and one
  \<open>Host\<close> is appended. \<open>alias.(string)\<close> panics on a value that is not a string.
\<close>

definition leafHost :: "string \<Rightarrow> ymap \<Rightarrow> ptr \<Rightarrow> pstate \<Rightarrow> (Host list) result" where
  "leafHost host grp currentConn st =
     (if currentConn < length (heap st) then
        (let st' = st\<lparr>heap := (heap st)[currentConn := (heap st ! currentConn)\<lparr>Host := host\<rparr>]\<rparr>;
             newHost = \<lparr>Address = host, Alias = '''', Connection = currentConn\<rparr>
         in case map_of grp (KStr ''alias'') of
              None \<Rightarrow> (Inr [newHost], st')
            | Some (YStr a) \<Rightarrow> (Inr [newHost\<lparr>Alias := a\<rparr>], st')
            | Some _ \<Rightarrow> (Inl Panic_type_assertion, st'))
      else (Inl Panic_nil_dereference, st))"

text \<open>The child's value as the loop passes it on: a value that is neither a map nor
  \<open>nil\<close> is logged, and the child is parsed from the nil map all the same.\<close>

definition childGroup :: "string \<Rightarrow> yval \<Rightarrow> pstate \<Rightarrow> pstate" where
  "childGroup name v st =
     (if \<not> isMap v \<and> v \<noteq> YNil then logf (Error_msg (''Faled to parse children of '' @ name)) st
      else st)"

text \<open>
  \<open>parseConfig\<close>, and its loop over the children as \<open>parseChildren\<close>, which carries
  \<open>allHosts\<close>. The loop visits the entries in the order of the list. The parameter
  \<open>group\<close> of the source is \<open>grp\<close> here.
\<close>

function
  parseConfig ::
    "(ymap \<Rightarrow> Connection) \<Rightarrow> string \<Rightarrow> string \<Rightarrow> ymap \<Rightarrow> ptr \<Rightarrow> pstate \<Rightarrow> (Host list) result"
and
  parseChildren ::
    "(ymap \<Rightarrow> Connection) \<Rightarrow> string \<Rightarrow> ymap \<Rightarrow> ptr \<Rightarrow> Host list \<Rightarrow> pstate \<Rightarrow> (Host list) result"
where
  "parseConfig dec name host grp currentConnection st =
     (case nodeConnection dec name host grp currentConnection st of
        (Inl e, st1) \<Rightarrow> (Inl e, st1)
      | (Inr currentConn, st1) \<Rightarrow>
          (case map_of grp (KStr ''children'') of
             Some children \<Rightarrow>
               (if isMap children then parseChildren dec name (asMap children) currentConn [] st1
                else (Inl (Fatal (''Failed to parse children of '' @ name)), st1))
           | None \<Rightarrow> leafHost host grp currentConn st1))"
| "parseChildren dec name [] currentConn allHosts st = (Inr allHosts, st)"
| "parseChildren dec name ((k, v) # rest) currentConn allHosts st =
     (case parseConfig dec (name @ '':'' @ sprintf_s k) (sprintf_s k) (asMap v) currentConn
             (childGroup name v st) of
        (Inl e, st1) \<Rightarrow> (Inl e, st1)
      | (Inr hs, st1) \<Rightarrow> parseChildren dec name rest currentConn (allHosts @ hs) st1)"
  by pat_completeness auto
termination
proof (relation "measure (\<lambda>x. case x of
          Inl (dec, name, host, grp, p, st) \<Rightarrow> 2 * msize grp + 1
        | Inr (dec, name, cs, p, acc, st) \<Rightarrow> 2 * msize cs)")
  show "wf (measure (\<lambda>x. case x of
          Inl (dec, name, host, grp, p, st) \<Rightarrow> 2 * msize grp + 1
        | Inr (dec, name, cs, p, acc, st) \<Rightarrow> 2 * msize (cs :: ymap)))"
    by simp
next
  fix grp :: ymap and children :: yval
  fix dec :: "ymap \<Rightarrow> Connection" and name host :: string and currentConnection x2 :: ptr
  fix st st1 :: pstate and x xa
  assume look: "map_of grp (KStr ''children'') = Some children" and m: "isMap children"
  have "map_of g k = Some v \<Longrightarrow> Suc (ysize v) \<le> msize g" for g :: ymap and k v
    by (induction g) (auto simp: msize_def split: if_splits)
  from this [OF look] have "Suc (ysize children) \<le> msize grp" .
  moreover from m have "ysize children = Suc (msize (asMap children))"
    by (cases children) (simp_all add: msize_def)
  ultimately show "(Inr (dec, name, asMap children, x2, [], st1),
          Inl (dec, name, host, grp, currentConnection, st)) \<in> measure (\<lambda>x. case x of
          Inl (dec, name, host, grp, p, st) \<Rightarrow> 2 * msize grp + 1
        | Inr (dec, name, cs, p, acc, st) \<Rightarrow> 2 * msize cs)"
    by simp
next
  fix dec :: "ymap \<Rightarrow> Connection" and name :: string and k :: ykey and v :: yval
  fix rest :: ymap and currentConn :: ptr and allHosts :: "Host list" and st :: pstate
  have "msize (asMap v) \<le> ysize v"
    by (cases v) (simp_all add: msize_def)
  then show "(Inl (dec, name @ '':'' @ sprintf_s k, sprintf_s k, asMap v, currentConn, childGroup name v st),
          Inr (dec, name, (k, v) # rest, currentConn, allHosts, st)) \<in> measure (\<lambda>x. case x of
          Inl (dec, name, host, grp, p, st) \<Rightarrow> 2 * msize grp + 1
        | Inr (dec, name, cs, p, acc, st) \<Rightarrow> 2 * msize cs)"
    by (simp add: msize_def)
next
  fix dec :: "ymap \<Rightarrow> Connection" and name :: string and k :: ykey and v :: yval
  fix rest :: ymap and currentConn :: ptr and allHosts :: "Host list" and st st1 :: pstate
  fix x xa
  show "(Inr (dec, name, rest, currentConn, allHosts @ xa, st1),
          Inr (dec, name, (k, v) # rest, currentConn, allHosts, st)) \<in> measure (\<lambda>x. case x of
          Inl (dec, name, host, grp, p, st) \<Rightarrow> 2 * msize grp + 1
        | Inr (dec, name, cs, p, acc, st) \<Rightarrow> 2 * msize cs)"
    by (simp add: msize_def)
qed

subsection \<open>GetDashboardInfoConfig\<close>

text \<open>The loop over \<open>config.Metrics\<close>, with the map \<open>metrics\<close> it fills.\<close>

fun metricsLoop ::
  "(string \<Rightarrow> bool) \<Rightarrow> (yval \<Rightarrow> string) \<Rightarrow> ymap \<Rightarrow> (string \<rightharpoonup> string) \<Rightarrow> error + (string \<rightharpoonup> string)" where
  "metricsLoop Valid fmtv [] ms = Inr ms"
| "metricsLoop Valid fmtv ((metric, customCommand) # rest) ms =
     (let m = sprintf_v metric
      in if Valid m then metricsLoop Valid fmtv rest (ms(m \<mapsto> fmtv customCommand))
         else Inl (Fatal (''Found invalid metric '' @ m)))"

text \<open>
  \<open>GetDashboardInfoConfig\<close>, in the order of the source: the hosts are resolved from a
  fresh zero connection, then the metrics are checked, then every host is logged, and
  the poll interval is compared with 5 (signed) at the end.
\<close>

definition GetDashboardInfoConfig ::
  "(ymap \<Rightarrow> Connection) \<Rightarrow> (string \<Rightarrow> bool) \<Rightarrow> (yval \<Rightarrow> string) \<Rightarrow> Config \<Rightarrow> pstate
     \<Rightarrow> DashboardInfo result" where
  "GetDashboardInfoConfig dec Valid fmtv config st =
     (let t = (if title config \<noteq> '''' then title config else ''Saido'')
      in case alloc zeroConnection st of
           (root, st0) \<Rightarrow>
             (case parseConfig dec ''root'' '''' (hosts config) root st0 of
                (Inl e, st1) \<Rightarrow> (Inl e, st1)
              | (Inr hs, st1) \<Rightarrow>
                  (case metricsLoop Valid fmtv (metrics config) Map.empty of
                     Inl e \<Rightarrow> (Inl e, st1)
                   | Inr ms \<Rightarrow>
                       (let st2 = st1\<lparr>logs := logs st1 @
                                    map (\<lambda>h. Debug_Host (Address h) (deref st1 (Connection h))) hs\<rparr>
                        in if sint (poll_interval config) < 5 then
                             (Inl (Fatal ''Cannot set poll interval below 5 seconds''), st2)
                           else (Inr \<lparr>Hosts = hs, Metrics = ms, Title = t,
                                       PollInterval = poll_interval config\<rparr>, st2)))))"

text \<open>The state of a process that has allocated and logged nothing yet.\<close>

definition initial :: pstate where
  "initial = \<lparr>heap = [], logs = []\<rparr>"

subsection \<open>A decoder for the examples\<close>

text \<open>
  \<open>mapstructure.Decode\<close> on a map whose keys are spelled exactly as the struct tags
  (\<open>Host\<close> has no tag and goes by its field name) and whose values have the kind of
  their field; anything else leaves the field at its zero value. The theorems below
  hold for every decoder; this one serves the concrete inputs.
\<close>

definition strField :: "ymap \<Rightarrow> string \<Rightarrow> string" where
  "strField m k = (case map_of m (KStr k) of Some (YStr s) \<Rightarrow> s | _ \<Rightarrow> '''')"

definition decodeExact :: "ymap \<Rightarrow> Connection" where
  "decodeExact m =
     \<lparr>Type = strField m ''type'', Username = strField m ''username'',
      Password = strField m ''password'', PrivateKeyPath = strField m ''private_key_path'',
      PrivateKeyPassPhrase = strField m ''private_key_passphrase'',
      Port = (case map_of m (KStr ''port'') of Some (YInt i) \<Rightarrow> word_of_int i | _ \<Rightarrow> 0),
      Host = strField m ''Host''\<rparr>"

subsection \<open>The specification's side\<close>

text \<open>
  The number of leaf nodes of a tree, in the words of the specification: a node without
  a \<open>children\<close> entry is a leaf, a node with one is a group and counts the leaves below.
\<close>

function numLeaves :: "ymap \<Rightarrow> nat" where
  "numLeaves grp =
     (case map_of grp (KStr ''children'') of
        None \<Rightarrow> 1
      | Some children \<Rightarrow> sum_list (map (\<lambda>kv. numLeaves (asMap (snd kv))) (asMap children)))"
  by pat_completeness auto
termination
proof (relation "measure msize")
  show "wf (measure msize)" by simp
next
  fix grp :: ymap and children :: yval and kv :: "ykey \<times> yval"
  assume look: "map_of grp (KStr ''children'') = Some children"
    and mem: "kv \<in> set (asMap children)"
  have "map_of g k = Some v \<Longrightarrow> Suc (ysize v) \<le> msize g" for g :: ymap and k v
    by (induction g) (auto simp: msize_def split: if_splits)
  from this [OF look] have a: "Suc (ysize children) \<le> msize grp" .
  have "x \<in> set m \<Longrightarrow> Suc (ysize (snd x)) \<le> msize m" for x and m :: ymap
    by (induction m) (auto simp: msize_def)
  from this [OF mem] have b: "Suc (ysize (snd kv)) \<le> msize (asMap children)" .
  have c: "msize (asMap v) \<le> ysize v" for v
    by (cases v) (simp_all add: msize_def)
  from a b c [of children] c [of "snd kv"]
  show "(asMap (snd kv), grp) \<in> measure msize" by simp
qed

text \<open>
  The connection a node works with, in the words of the specification: the node's own
  \<open>connection\<close> entry, decoded and given the default port, or else the connection it
  inherits.
\<close>

definition resolvedConnection :: "(ymap \<Rightarrow> Connection) \<Rightarrow> ymap \<Rightarrow> Connection \<Rightarrow> Connection" where
  "resolvedConnection dec grp inherited =
     (case map_of grp (KStr ''connection'') of
        None \<Rightarrow> inherited
      | Some conn \<Rightarrow>
          (let c = dec (asMap conn)
           in if Type c = ''ssh'' \<and> Port c = 0 then c\<lparr>Port := 22\<rparr> else c))"

text \<open>
  \<open>Resolve(tree, inheritedConnection)\<close> of the specification, on values: a group hands
  its connection down to each child and concatenates what the children give, in their
  order; a leaf gives one pair of its key and its connection, bound to that key. Every
  pair has a connection value of its own.
\<close>

function Resolve ::
  "(ymap \<Rightarrow> Connection) \<Rightarrow> string \<Rightarrow> ymap \<Rightarrow> Connection \<Rightarrow> (string \<times> Connection) list" where
  "Resolve dec host grp inherited =
     (case map_of grp (KStr ''children'') of
        None \<Rightarrow> [(host, (resolvedConnection dec grp inherited)\<lparr>Host := host\<rparr>)]
      | Some children \<Rightarrow>
          concat (map (\<lambda>kv. Resolve dec (sprintf_s (fst kv)) (asMap (snd kv))
                              (resolvedConnection dec grp inherited))
                      (asMap children)))"
  by pat_completeness auto
termination
proof (relation "measure (\<lambda>(dec, host, grp, inherited). msize grp)")
  show "wf (measure (\<lambda>(dec :: ymap \<Rightarrow> Connection, host :: string, grp, inherited :: Connection).
          msize grp))"
    by simp
next
  fix dec :: "ymap \<Rightarrow> Connection" and host :: string and grp :: ymap
  fix inherited :: Connection and children :: yval and kv :: "ykey \<times> yval"
  assume look: "map_of grp (KStr ''children'') = Some children"
    and mem: "kv \<in> set (asMap children)"
  have "map_of g k = Some v \<Longrightarrow> Suc (ysize v) \<le> msize g" for g :: ymap and k v
    by (induction g) (auto simp: msize_def split: if_splits)
  from this [OF look] have a: "Suc (ysize children) \<le> msize grp" .
  have "x \<in> set m \<Longrightarrow> Suc (ysize (snd x)) \<le> msize m" for x and m :: ymap
    by (induction m) (auto simp: msize_def)
  from this [OF mem] have b: "Suc (ysize (snd kv)) \<le> msize (asMap children)" .
  have c: "msize (asMap v) \<le> ysize v" for v
    by (cases v) (simp_all add: msize_def)
  from a b c [of children] c [of "snd kv"]
  show "((dec, sprintf_s (fst kv), asMap (snd kv), resolvedConnection dec grp inherited),
          (dec, host, grp, inherited)) \<in> measure (\<lambda>(dec, host, grp, inherited). msize grp)"
    by simp
qed

text \<open>A connection without its target host: what a node inherits and hands down.\<close>

definition withoutHost :: "Connection \<Rightarrow> Connection" where
  "withoutHost c = c\<lparr>Host := ''''\<rparr>"

text \<open>
  A well-formed tree: no \<open>connection\<close> entry decodes to both a password and a private
  key, every \<open>children\<close> entry is a map, and the \<open>alias\<close> of a leaf is a string.
\<close>

definition connectionOk :: "(ymap \<Rightarrow> Connection) \<Rightarrow> ymap \<Rightarrow> bool" where
  "connectionOk dec grp =
     (case map_of grp (KStr ''connection'') of
        None \<Rightarrow> True
      | Some conn \<Rightarrow> Password (dec (asMap conn)) = '''' \<or> PrivateKeyPath (dec (asMap conn)) = '''')"

definition aliasOk :: "ymap \<Rightarrow> bool" where
  "aliasOk grp =
     (case map_of grp (KStr ''alias'') of None \<Rightarrow> True | Some (YStr a) \<Rightarrow> True | Some _ \<Rightarrow> False)"

function wellFormed :: "(ymap \<Rightarrow> Connection) \<Rightarrow> ymap \<Rightarrow> bool" where
  "wellFormed dec grp =
     (connectionOk dec grp \<and>
      (case map_of grp (KStr ''children'') of
         None \<Rightarrow> aliasOk grp
       | Some children \<Rightarrow>
           isMap children \<and> list_all (\<lambda>kv. wellFormed dec (asMap (snd kv))) (asMap children)))"
  by pat_completeness auto
termination
proof (relation "measure (\<lambda>(dec, grp). msize grp)")
  show "wf (measure (\<lambda>(dec :: ymap \<Rightarrow> Connection, grp). msize grp))"
    by simp
next
  fix dec :: "ymap \<Rightarrow> Connection" and grp :: ymap and children :: yval
  fix kv :: "ykey \<times> yval"
  assume look: "map_of grp (KStr ''children'') = Some children"
    and mem: "kv \<in> set (asMap children)"
  have "map_of g k = Some v \<Longrightarrow> Suc (ysize v) \<le> msize g" for g :: ymap and k v
    by (induction g) (auto simp: msize_def split: if_splits)
  from this [OF look] have a: "Suc (ysize children) \<le> msize grp" .
  have "x \<in> set m \<Longrightarrow> Suc (ysize (snd x)) \<le> msize m" for x and m :: ymap
    by (induction m) (auto simp: msize_def)
  from this [OF mem] have b: "Suc (ysize (snd kv)) \<le> msize (asMap children)" .
  have c: "msize (asMap v) \<le> ysize v" for v
    by (cases v) (simp_all add: msize_def)
  from a b c [of children] c [of "snd kv"]
  show "((dec, asMap (snd kv)), (dec, grp)) \<in> measure (\<lambda>(dec, grp). msize grp)"
    by simp
qed

text \<open>
  What a list of hosts shows in a state: each address with the connection its pointer
  leads to, the target host left out. And when a later state keeps what an earlier
  one had: the store has only grown, no connection changed but for its target host, and
  the log has only been appended to.
\<close>

definition inherited_view :: "pstate \<Rightarrow> Host list \<Rightarrow> (string \<times> Connection) list" where
  "inherited_view st hs = map (\<lambda>h. (Address h, withoutHost (heap st ! Connection h))) hs"

definition extends :: "pstate \<Rightarrow> pstate \<Rightarrow> bool" where
  "extends st st' =
     (length (heap st) \<le> length (heap st') \<and>
      (\<forall>q < length (heap st). withoutHost (heap st' ! q) = withoutHost (heap st ! q)) \<and>
      take (length (logs st)) (logs st') = logs st)"

text \<open>The pairs of the specification's \<open>Resolve\<close>, the target host left out.\<close>

definition spec_view :: "(string \<times> Connection) list \<Rightarrow> (string \<times> Connection) list" where
  "spec_view rs = map (\<lambda>ac. (fst ac, withoutHost (snd ac))) rs"

subsection \<open>Leaves in traversal order\<close>

text \<open>
  The keys of the leaf nodes of a tree, in the order of the traversal: a leaf gives its
  own key, a group gives the keys of its children one after the other. And the number
  of leaves below a list of children.
\<close>

function leafKeys :: "string \<Rightarrow> ymap \<Rightarrow> string list" where
  "leafKeys host grp =
     (case map_of grp (KStr ''children'') of
        None \<Rightarrow> [host]
      | Some children \<Rightarrow>
          concat (map (\<lambda>kv. leafKeys (sprintf_s (fst kv)) (asMap (snd kv))) (asMap children)))"
  by pat_completeness auto
termination
proof (relation "measure (\<lambda>(host, grp). msize grp)")
  show "wf (measure (\<lambda>(host :: string, grp). msize grp))"
    by simp
next
  fix host :: string and grp :: ymap and children :: yval and kv :: "ykey \<times> yval"
  assume look: "map_of grp (KStr ''children'') = Some children"
    and mem: "kv \<in> set (asMap children)"
  have "map_of g k = Some v \<Longrightarrow> Suc (ysize v) \<le> msize g" for g :: ymap and k v
    by (induction g) (auto simp: msize_def split: if_splits)
  from this [OF look] have a: "Suc (ysize children) \<le> msize grp" .
  have "x \<in> set m \<Longrightarrow> Suc (ysize (snd x)) \<le> msize m" for x and m :: ymap
    by (induction m) (auto simp: msize_def)
  from this [OF mem] have b: "Suc (ysize (snd kv)) \<le> msize (asMap children)" .
  have c: "msize (asMap v) \<le> ysize v" for v
    by (cases v) (simp_all add: msize_def)
  from a b c [of children] c [of "snd kv"]
  show "((sprintf_s (fst kv), asMap (snd kv)), (host, grp)) \<in> measure (\<lambda>(host, grp). msize grp)"
    by simp
qed

definition leavesOf :: "ymap \<Rightarrow> nat" where
  "leavesOf cs = sum_list (map (\<lambda>kv. numLeaves (asMap (snd kv))) cs)"

subsection \<open>Another run on the same tree\<close>

text \<open>
  \<open>range\<close> may visit the entries of a map in any order. \<open>visit\<close> stands for the order a
  run picks, a permutation of the entries (an answer that is not one is ignored), and
  \<open>revisit visit grp\<close> is the tree as that run goes through it: the same entries, every
  \<open>children\<close> map in the order \<open>visit\<close> gives it, at every depth.
\<close>

definition inOrder :: "(ymap \<Rightarrow> ymap) \<Rightarrow> ymap \<Rightarrow> ymap" where
  "inOrder visit m = (if mset (visit m) = mset m then visit m else m)"

function revisit :: "(ymap \<Rightarrow> ymap) \<Rightarrow> ymap \<Rightarrow> ymap" where
  "revisit visit grp =
     map (\<lambda>kv. if fst kv = KStr ''children'' \<and> isMap (snd kv) then
                  (fst kv, YMap (inOrder visit
                     (map (\<lambda>c. (fst c, if isMap (snd c) then YMap (revisit visit (asMap (snd c)))
                                       else snd c))
                          (asMap (snd kv)))))
                else kv)
         grp"
  by pat_completeness auto
termination
proof (relation "measure (\<lambda>(visit, grp). msize grp)")
  show "wf (measure (\<lambda>(visit :: ymap \<Rightarrow> ymap, grp). msize grp))"
    by simp
next
  fix visit :: "ymap \<Rightarrow> ymap" and grp :: ymap and kv c :: "ykey \<times> yval"
  assume kv: "kv \<in> set grp" and c: "c \<in> set (asMap (snd kv))"
  have mem: "x \<in> set m \<Longrightarrow> Suc (ysize (snd x)) \<le> msize m" for x and m :: ymap
    by (induction m) (auto simp: msize_def)
  have le: "msize (asMap v) \<le> ysize v" for v
    by (cases v) (simp_all add: msize_def)
  from mem [OF kv] mem [OF c] le [of "snd kv"] le [of "snd c"]
  show "((visit, asMap (snd c)), (visit, grp)) \<in> measure (\<lambda>(visit, grp). msize grp)"
    by simp
qed

text \<open>One entry of a revisited \<open>children\<close> map: the key, and the child revisited.\<close>

definition revisitChild :: "(ymap \<Rightarrow> ymap) \<Rightarrow> ykey \<times> yval \<Rightarrow> ykey \<times> yval" where
  "revisitChild visit c =
     (fst c, if isMap (snd c) then YMap (revisit visit (asMap (snd c))) else snd c)"

subsection \<open>Concrete inputs\<close>

text \<open>
  A tree with a leaf that overrides the connection, a bare leaf and a nested group; the
  scenario of the specification (\<open>web\<close> over ssh on port 2222, \<open>db\<close> inheriting a local
  root connection) and the same tree without the override; two bare leaves under the
  root; a configuration with a poll interval of 3; and configurations that differ in
  their metrics. \<open>knownMetric\<close> is a registry with two names and \<open>sprintf_v_scalar\<close>
  prints scalar custom commands as \<open>%v\<close> does (composite values are not used here).
\<close>

definition fleet :: ymap where
  "fleet =
     [(KStr ''children'', YMap
        [(KStr ''web'', YMap [(KStr ''connection'',
                                 YMap [(KStr ''type'', YStr ''ssh''), (KStr ''port'', YInt 2222)]),
                              (KStr ''alias'', YStr ''front'')]),
         (KStr ''db'', YNil),
         (KStr ''cache'', YMap [(KStr ''children'', YMap [(KStr ''c1'', YNil), (KStr ''c2'', YNil)])])])]"

definition web_db :: ymap where
  "web_db =
     [(KStr ''children'', YMap
        [(KStr ''web'', YMap [(KStr ''connection'',
                                 YMap [(KStr ''type'', YStr ''ssh''), (KStr ''port'', YInt 2222)])]),
         (KStr ''db'', YMap [])])]"

definition web_db_plain :: ymap where
  "web_db_plain =
     [(KStr ''children'', YMap [(KStr ''web'', YMap []), (KStr ''db'', YMap [])])]"

definition local_root :: pstate where
  "local_root = \<lparr>heap = [zeroConnection\<lparr>Type := ''local''\<rparr>], logs = []\<rparr>"

definition bare_pair :: ymap where
  "bare_pair = [(KStr ''children'', YMap [(KStr ''a'', YNil), (KStr ''b'', YNil)])]"

definition two_leaves :: Config where
  "two_leaves =
     \<lparr>hosts = [(KStr ''children'', YMap [(KStr ''a'', YNil), (KStr ''b'', YNil)])],
      metrics = [], title = '''', poll_interval = 5\<rparr>"

definition interval_3 :: Config where
  "interval_3 =
     \<lparr>hosts = [(KStr ''children'', YMap [(KStr ''a'', YNil)])],
      metrics = [], title = '''', poll_interval = 3\<rparr>"

definition with_metrics :: "ymap \<Rightarrow> Config" where
  "with_metrics ms =
     \<lparr>hosts = [(KStr ''children'', YMap [(KStr ''a'', YNil)])],
      metrics = ms, title = ''fleet'', poll_interval = 10\<rparr>"

definition knownMetric :: "string \<Rightarrow> bool" where
  "knownMetric m = (m = ''memory'' \<or> m = ''disk'')"

fun sprintf_v_scalar :: "yval \<Rightarrow> string" where
  "sprintf_v_scalar YNil = ''<nil>''"
| "sprintf_v_scalar (YStr s) = s"
| "sprintf_v_scalar (YInt i) = showInt i"
| "sprintf_v_scalar (YBool b) = (if b then ''true'' else ''false'')"
| "sprintf_v_scalar _ = ''''"

declare Resolve.simps [simp del] numLeaves.simps [simp del] wellFormed.simps [simp del]
  leafKeys.simps [simp del] revisit.simps [simp del]

section \<open>Properties\<close>

subsection \<open>The store and the log only grow\<close>

lemma extends_refl: "extends st st"
  by (simp add: extends_def)

lemma take_prefix_trans:
  assumes "take (length a) b = a" and "take (length b) c = b"
  shows "take (length a) c = a"
proof -
  have "length a \<le> length b"
    using arg_cong [OF assms(1), of length] by simp
  then have "take (length a) (take (length b) c) = take (length a) c"
    by (simp add: min_def)
  with assms show ?thesis by simp
qed

lemma extends_trans: "extends a b \<Longrightarrow> extends b c \<Longrightarrow> extends a c"
  unfolding extends_def
  by (intro conjI) (auto intro: take_prefix_trans)

lemma extends_logf: "extends st (logf e st)"
  by (simp add: extends_def logf_def)

lemma heap_logf: "heap (logf e st) = heap st"
  by (simp add: logf_def)

lemma heap_childGroup: "heap (childGroup name v st) = heap st"
  by (simp add: childGroup_def logf_def)

lemma parseConnection_result:
  "parseConnection dec conn st = (r, st') \<Longrightarrow>
     (r = Inl (Fatal ''Cannot specify both password login and private key login on same connection'')
        \<and> st' = st \<and> \<not> (Password (dec conn) = '''' \<or> PrivateKeyPath (dec conn) = '''')) \<or>
     (r = Inr (length (heap st)) \<and> (Password (dec conn) = '''' \<or> PrivateKeyPath (dec conn) = '''') \<and>
      st' = st\<lparr>heap := heap st @ [if Type (dec conn) = ''ssh'' \<and> Port (dec conn) = 0
                               then (dec conn)\<lparr>Port := 22\<rparr> else dec conn]\<rparr>)"
  by (auto simp: parseConnection_def alloc_def Let_def split: if_splits)

lemma asMap_not_map: "\<not> isMap v \<Longrightarrow> asMap v = []"
  by (cases v) simp_all

lemma nodeConnection_unfold:
  "nodeConnection dec name host grp p st =
     (case map_of grp (KStr ''connection'') of
        None \<Rightarrow> (Inr p, logf (Info_Loading name host (deref st p)) st)
      | Some conn \<Rightarrow>
          parseConnection dec (asMap conn)
            (if isMap conn then logf (Info_Loading name host (deref st p)) st
             else logf (Error_msg (''Failed to parse connection for '' @ name))
                    (logf (Info_Loading name host (deref st p)) st)))"
  by (simp add: nodeConnection_def Let_def asMap_not_map split: option.splits)

lemma nodeConnection_Inr:
  assumes "nodeConnection dec name host grp p st = (Inr q, st1)"
  shows "connectionOk dec grp \<and> logs st1 \<noteq> [] \<and>
     (case map_of grp (KStr ''connection'') of
        None \<Rightarrow> q = p \<and> heap st1 = heap st
      | Some conn \<Rightarrow> q = length (heap st) \<and>
          heap st1 = heap st @ [resolvedConnection dec grp inh])"
proof (cases "map_of grp (KStr ''connection'')")
  case None
  with assms show ?thesis
    by (auto simp: nodeConnection_unfold connectionOk_def logf_def)
next
  case (Some conn)
  define st0 where "st0 = (if isMap conn then logf (Info_Loading name host (deref st p)) st
             else logf (Error_msg (''Failed to parse connection for '' @ name))
                    (logf (Info_Loading name host (deref st p)) st))"
  have h: "heap st0 = heap st" and l: "logs st0 \<noteq> []"
    by (simp_all add: st0_def logf_def)
  from assms Some have "parseConnection dec (asMap conn) st0 = (Inr q, st1)"
    by (simp add: nodeConnection_unfold st0_def)
  from parseConnection_result [OF this] h l Some show ?thesis
    by (auto simp: connectionOk_def resolvedConnection_def Let_def)
qed

lemma nodeConnection_extends:
  assumes "nodeConnection dec name host grp p st = (r, st1)"
  shows "extends st st1"
proof (cases "map_of grp (KStr ''connection'')")
  case None
  with assms show ?thesis
    by (auto simp: nodeConnection_unfold extends_logf)
next
  case (Some conn)
  define st0 where "st0 = (if isMap conn then logf (Info_Loading name host (deref st p)) st
             else logf (Error_msg (''Failed to parse connection for '' @ name))
                    (logf (Info_Loading name host (deref st p)) st))"
  have h: "heap st0 = heap st" and l: "take (length (logs st)) (logs st0) = logs st"
    by (simp_all add: st0_def logf_def)
  from assms Some have "parseConnection dec (asMap conn) st0 = (r, st1)"
    by (simp add: nodeConnection_unfold st0_def)
  from parseConnection_result [OF this] h l show ?thesis
    by (auto simp: extends_def nth_append)
qed

lemma leafHost_extends:
  assumes "leafHost host grp p st = (r, st1)"
  shows "extends st st1"
  using assms
  by (auto simp: leafHost_def extends_def withoutHost_def nth_list_update Let_def
      split: option.splits if_splits yval.splits)

lemma parse_extends:
  "parseConfig dec name host grp p st = (r, st') \<Longrightarrow> extends st st'"
  "parseChildren dec name cs p acc st = (r', st'') \<Longrightarrow> extends st st''"
proof (induction dec name host grp p st and dec name cs p acc st
    arbitrary: r st' and r' st'' rule: parseConfig_parseChildren.induct)
  case (1 dec name host grp currentConnection st)
  obtain r1 st1 where nc: "nodeConnection dec name host grp currentConnection st = (r1, st1)"
    by (cases "nodeConnection dec name host grp currentConnection st")
  have e1: "extends st st1" using nc by (rule nodeConnection_extends)
  show ?case
  proof (cases r1)
    case (Inl e)
    with nc "1.prems" e1 show ?thesis by simp
  next
    case (Inr q)
    show ?thesis
    proof (cases "map_of grp (KStr ''children'')")
      case None
      with nc Inr "1.prems" have "leafHost host grp q st1 = (r, st')" by simp
      from leafHost_extends [OF this] e1 show ?thesis by (rule extends_trans [rotated])
    next
      case (Some children)
      show ?thesis
      proof (cases "isMap children")
        case True
        with nc Inr Some "1.prems"
        have "parseChildren dec name (asMap children) q [] st1 = (r, st')" by simp
        from "1.IH" [OF nc [symmetric, unfolded Inr] refl Some True this] e1
        show ?thesis by (rule extends_trans [rotated])
      next
        case False
        with nc Inr Some "1.prems" e1 show ?thesis by simp
      qed
    qed
  qed
next
  case (2 dec name currentConn allHosts st)
  then show ?case by (simp add: extends_refl)
next
  case (3 dec name k v rest currentConn allHosts st)
  obtain r1 st1 where pc: "parseConfig dec (name @ '':'' @ sprintf_s k) (sprintf_s k) (asMap v)
      currentConn (childGroup name v st) = (r1, st1)"
    by (cases "parseConfig dec (name @ '':'' @ sprintf_s k) (sprintf_s k) (asMap v)
      currentConn (childGroup name v st)")
  have e0: "extends st (childGroup name v st)"
    by (simp add: childGroup_def extends_logf extends_refl)
  have e1: "extends st st1"
    using e0 "3.IH"(1) [OF pc] by (rule extends_trans)
  show ?case
  proof (cases r1)
    case (Inl e)
    with pc "3.prems" e1 show ?thesis by simp
  next
    case (Inr hs)
    with pc "3.prems"
    have "parseChildren dec name rest currentConn (allHosts @ hs) st1 = (r', st'')" by simp
    from e1 "3.IH"(2) [OF pc [symmetric, unfolded Inr] refl this]
    show ?thesis by (rule extends_trans)
  qed
qed

subsection \<open>The hosts that are emitted and the connections they inherit\<close>

lemma spec_view_append: "spec_view (xs @ ys) = spec_view xs @ spec_view ys"
  by (simp add: spec_view_def)

lemma inherited_view_append:
  "inherited_view st (xs @ ys) = inherited_view st xs @ inherited_view st ys"
  by (simp add: inherited_view_def)

lemma spec_view_concat_cong:
  "(\<And>kv. kv \<in> set cs \<Longrightarrow> spec_view (f kv) = spec_view (g kv)) \<Longrightarrow>
     spec_view (concat (map f cs)) = spec_view (concat (map g cs))"
  by (induction cs) (simp_all add: spec_view_append spec_view_def)

lemma resolvedConnection_cong:
  "withoutHost a = withoutHost b \<Longrightarrow>
     withoutHost (resolvedConnection dec grp a) = withoutHost (resolvedConnection dec grp b)"
  by (simp add: resolvedConnection_def split: option.splits)

lemma withoutHost_Host [simp]: "withoutHost (c\<lparr>Host := h\<rparr>) = withoutHost c"
  by (simp add: withoutHost_def)

lemma Resolve_cong:
  "withoutHost a = withoutHost b \<Longrightarrow>
     spec_view (Resolve dec host grp a) = spec_view (Resolve dec host grp b)"
proof (induction dec host grp a arbitrary: b rule: Resolve.induct)
  case (1 dec host grp inherited)
  note rc = resolvedConnection_cong [OF "1.prems", of dec grp]
  show ?case
  proof (cases "map_of grp (KStr ''children'')")
    case None
    with rc show ?thesis
      by (simp add: Resolve.simps [of dec host grp] spec_view_def)
  next
    case (Some children)
    have "spec_view (concat (map (\<lambda>kv. Resolve dec (sprintf_s (fst kv)) (asMap (snd kv))
                              (resolvedConnection dec grp inherited)) (asMap children))) =
          spec_view (concat (map (\<lambda>kv. Resolve dec (sprintf_s (fst kv)) (asMap (snd kv))
                              (resolvedConnection dec grp b)) (asMap children)))"
      by (rule spec_view_concat_cong) (rule "1.IH" [OF Some _ rc])
    with Some show ?thesis
      by (simp add: Resolve.simps [of dec host grp])
  qed
qed

lemma extends_valid: "extends st st' \<Longrightarrow> p < length (heap st) \<Longrightarrow> p < length (heap st')"
  by (simp add: extends_def)

lemma extends_withoutHost:
  "extends st st' \<Longrightarrow> p < length (heap st) \<Longrightarrow> withoutHost (heap st' ! p) = withoutHost (heap st ! p)"
  by (simp add: extends_def)

lemma extends_view:
  "extends st st' \<Longrightarrow> \<forall>h\<in>set hs. Connection h < length (heap st) \<Longrightarrow>
     inherited_view st' hs = inherited_view st hs"
  by (simp add: extends_def inherited_view_def)

lemma nodeConnection_target:
  assumes "nodeConnection dec name host grp p st = (Inr q, st1)" and "p < length (heap st)"
  shows "q < length (heap st1) \<and> heap st1 ! q = resolvedConnection dec grp (heap st ! p)"
  using nodeConnection_Inr [OF assms(1), of "heap st ! p"] assms(2)
  by (auto simp: resolvedConnection_def split: option.splits)

lemma leafHost_Inr:
  assumes "leafHost host grp q st = (Inr hs, st')"
  shows "q < length (heap st) \<and> aliasOk grp \<and> logs st' = logs st \<and>
         heap st' = (heap st)[q := (heap st ! q)\<lparr>Host := host\<rparr>] \<and>
         (\<exists>a. hs = [\<lparr>Address = host, Alias = a, Connection = q\<rparr>])"
  using assms
  by (auto simp: leafHost_def aliasOk_def Let_def split: if_splits option.splits yval.splits)

lemma parse_view:
  "p < length (heap st) \<Longrightarrow> parseConfig dec name host grp p st = (Inr hs, st') \<Longrightarrow>
     (\<forall>h\<in>set hs. Connection h < length (heap st')) \<and>
     inherited_view st' hs = spec_view (Resolve dec host grp (heap st ! p))"
  "p < length (heap st) \<Longrightarrow> parseChildren dec name cs p acc st = (Inr hs', st'') \<Longrightarrow>
     (\<exists>new. hs' = acc @ new \<and> (\<forall>h\<in>set new. Connection h < length (heap st'')) \<and>
        inherited_view st'' new =
          spec_view (concat (map (\<lambda>kv. Resolve dec (sprintf_s (fst kv)) (asMap (snd kv)) (heap st ! p)) cs)))"
proof (induction dec name host grp p st and dec name cs p acc st
    arbitrary: hs st' and hs' st'' rule: parseConfig_parseChildren.induct)
  case (1 dec name host grp p st)
  obtain r1 st1 where nc: "nodeConnection dec name host grp p st = (r1, st1)"
    by (cases "nodeConnection dec name host grp p st")
  from nc "1.prems"(2) obtain q where r1: "r1 = Inr q"
    by (cases r1) auto
  note nc = nc [unfolded r1]
  from nodeConnection_target [OF nc "1.prems"(1)]
  have q: "q < length (heap st1)" and tgt: "heap st1 ! q = resolvedConnection dec grp (heap st ! p)"
    by simp_all
  show ?case
  proof (cases "map_of grp (KStr ''children'')")
    case None
    with nc "1.prems" have "leafHost host grp q st1 = (Inr hs, st')" by simp
    from leafHost_Inr [OF this] tgt None show ?thesis
      by (auto simp: inherited_view_def spec_view_def Resolve.simps [of dec host grp])
  next
    case (Some children)
    with nc "1.prems" have m: "isMap children"
      by (auto split: if_splits)
    with nc Some "1.prems"
    have "parseChildren dec name (asMap children) q [] st1 = (Inr hs, st')" by simp
    from "1.IH" [OF nc [symmetric] refl Some m q this] tgt Some show ?thesis
      by (simp add: Resolve.simps [of dec host grp])
  qed
next
  case (2 dec name currentConn allHosts st)
  then show ?case by (simp add: inherited_view_def spec_view_def)
next
  case (3 dec name k v rest p acc st)
  let ?st0 = "childGroup name v st"
  obtain r1 st1 where pc: "parseConfig dec (name @ '':'' @ sprintf_s k) (sprintf_s k) (asMap v)
      p ?st0 = (r1, st1)"
    by (cases "parseConfig dec (name @ '':'' @ sprintf_s k) (sprintf_s k) (asMap v) p ?st0")
  from pc "3.prems"(2) obtain hs1 where r1: "r1 = Inr hs1"
    by (cases r1) auto
  note pc = pc [unfolded r1]
  have p0: "p < length (heap ?st0)" using "3.prems"(1) by (simp add: heap_childGroup)
  from "3.IH"(1) [OF p0 pc]
  have v1: "\<forall>h\<in>set hs1. Connection h < length (heap st1)"
    and w1: "inherited_view st1 hs1 = spec_view (Resolve dec (sprintf_s k) (asMap v) (heap st ! p))"
    by (simp_all add: heap_childGroup)
  have e1: "extends ?st0 st1" using pc by (rule parse_extends(1))
  have p1: "p < length (heap st1)" using e1 p0 by (rule extends_valid)
  from pc "3.prems"(2)
  have rest: "parseChildren dec name rest p (acc @ hs1) st1 = (Inr hs', st'')" by simp
  from "3.IH"(2) [OF pc [symmetric] refl p1 rest]
  obtain new where hs': "hs' = (acc @ hs1) @ new"
    and v2: "\<forall>h\<in>set new. Connection h < length (heap st'')"
    and w2: "inherited_view st'' new =
          spec_view (concat (map (\<lambda>kv. Resolve dec (sprintf_s (fst kv)) (asMap (snd kv)) (heap st1 ! p)) rest))"
    by blast
  have e2: "extends st1 st''" using rest by (rule parse_extends(2))
  have same: "withoutHost (heap st1 ! p) = withoutHost (heap st ! p)"
    using extends_withoutHost [OF e1 p0] by (simp add: heap_childGroup)
  have w2': "inherited_view st'' new =
          spec_view (concat (map (\<lambda>kv. Resolve dec (sprintf_s (fst kv)) (asMap (snd kv)) (heap st ! p)) rest))"
    unfolding w2 by (rule spec_view_concat_cong) (rule Resolve_cong [OF same])
  have w1': "inherited_view st'' hs1 = spec_view (Resolve dec (sprintf_s k) (asMap v) (heap st ! p))"
    using extends_view [OF e2 v1] w1 by simp
  have v1': "\<forall>h\<in>set hs1. Connection h < length (heap st'')"
    using v1 e2 by (auto simp: extends_def)
  show ?case
  proof (intro exI conjI)
    show "hs' = acc @ (hs1 @ new)" using hs' by simp
    show "\<forall>h\<in>set (hs1 @ new). Connection h < length (heap st'')" using v1' v2 by auto
    show "inherited_view st'' (hs1 @ new) =
      spec_view (concat (map (\<lambda>kv. Resolve dec (sprintf_s (fst kv)) (asMap (snd kv)) (heap st ! p))
        ((k, v) # rest)))"
      by (simp add: inherited_view_append spec_view_append w1' w2')
  qed
qed

subsection \<open>Counting the hosts; when the resolution returns\<close>

lemma length_Resolve: "length (Resolve dec host grp inh) = numLeaves grp"
proof (induction dec host grp inh rule: Resolve.induct)
  case (1 dec host grp inherited)
  show ?case
  proof (cases "map_of grp (KStr ''children'')")
    case None
    then show ?thesis
      by (simp add: Resolve.simps [of dec host grp] numLeaves.simps [of grp])
  next
    case (Some children)
    have "(\<Sum>kv\<leftarrow>asMap children. length (Resolve dec (sprintf_s (fst kv)) (asMap (snd kv))
              (resolvedConnection dec grp inherited))) =
          (\<Sum>kv\<leftarrow>asMap children. numLeaves (asMap (snd kv)))"
      by (rule arg_cong [where f = sum_list], rule map_cong [OF refl]) (rule "1.IH" [OF Some])
    then show ?thesis
      by (simp add: Resolve.simps [of dec host grp] numLeaves.simps [of grp] Some length_concat o_def)
  qed
qed

lemma length_views: "length (inherited_view st hs) = length hs" "length (spec_view rs) = length rs"
  by (simp_all add: inherited_view_def spec_view_def)

lemma parseConfig_length:
  assumes "p < length (heap st)" and "parseConfig dec name host grp p st = (Inr hs, st')"
  shows "length hs = numLeaves grp"
  using arg_cong [OF conjunct2 [OF parse_view(1) [OF assms]], of length]
  by (simp add: length_views length_Resolve)

lemma nodeConnection_total:
  assumes "connectionOk dec grp"
  shows "\<exists>q st1. nodeConnection dec name host grp p st = (Inr q, st1)"
  using assms
  by (auto simp: nodeConnection_unfold connectionOk_def parseConnection_def alloc_def Let_def
      split: option.splits)

lemma leafHost_total:
  assumes "aliasOk grp" and "q < length (heap st)"
  shows "\<exists>hs st'. leafHost host grp q st = (Inr hs, st')"
  using assms
  by (auto simp: leafHost_def aliasOk_def Let_def split: option.splits yval.splits)

lemma parse_total:
  "wellFormed dec grp \<Longrightarrow> p < length (heap st) \<Longrightarrow>
     \<exists>hs st'. parseConfig dec name host grp p st = (Inr hs, st')"
  "list_all (\<lambda>kv. wellFormed dec (asMap (snd kv))) cs \<Longrightarrow> p < length (heap st) \<Longrightarrow>
     \<exists>hs st'. parseChildren dec name cs p acc st = (Inr hs, st')"
proof (induction dec name host grp p st and dec name cs p acc st
    rule: parseConfig_parseChildren.induct)
  case (1 dec name host grp p st)
  from "1.prems"(1) have ok: "connectionOk dec grp"
    by (simp add: wellFormed.simps [of dec grp])
  from nodeConnection_total [OF ok]
  obtain q st1 where nc: "nodeConnection dec name host grp p st = (Inr q, st1)" by blast
  from nodeConnection_target [OF nc "1.prems"(2)] have q: "q < length (heap st1)" by simp
  show ?case
  proof (cases "map_of grp (KStr ''children'')")
    case None
    with "1.prems"(1) have "aliasOk grp"
      by (simp add: wellFormed.simps [of dec grp])
    from leafHost_total [OF this q] nc None show ?thesis by simp
  next
    case (Some children)
    with "1.prems"(1) have m: "isMap children"
      and all: "list_all (\<lambda>kv. wellFormed dec (asMap (snd kv))) (asMap children)"
      by (simp_all add: wellFormed.simps [of dec grp])
    from "1.IH" [OF nc [symmetric] refl Some m all q] nc Some m show ?thesis by simp
  qed
next
  case (2 dec name currentConn allHosts st)
  then show ?case by simp
next
  case (3 dec name k v rest p acc st)
  let ?st0 = "childGroup name v st"
  have p0: "p < length (heap ?st0)" using "3.prems"(2) by (simp add: heap_childGroup)
  from "3.prems"(1) have wf: "wellFormed dec (asMap v)"
    and all: "list_all (\<lambda>kv. wellFormed dec (asMap (snd kv))) rest"
    by simp_all
  from "3.IH"(1) [OF wf p0]
  obtain hs1 st1 where pc: "parseConfig dec (name @ '':'' @ sprintf_s k) (sprintf_s k) (asMap v)
      p ?st0 = (Inr hs1, st1)" by blast
  have p1: "p < length (heap st1)"
    using parse_extends(1) [OF pc] p0 by (rule extends_valid)
  from "3.IH"(2) [OF pc [symmetric] refl all p1] pc show ?case by simp
qed

lemma parse_wellFormed:
  "parseConfig dec name host grp p st = (Inr hs, st') \<Longrightarrow> wellFormed dec grp"
  "parseChildren dec name cs p acc st = (Inr hs', st'') \<Longrightarrow>
     list_all (\<lambda>kv. wellFormed dec (asMap (snd kv))) cs"
proof (induction dec name host grp p st and dec name cs p acc st
    arbitrary: hs st' and hs' st'' rule: parseConfig_parseChildren.induct)
  case (1 dec name host grp p st)
  obtain r1 st1 where nc: "nodeConnection dec name host grp p st = (r1, st1)"
    by (cases "nodeConnection dec name host grp p st")
  from nc "1.prems" obtain q where r1: "r1 = Inr q"
    by (cases r1) auto
  note nc = nc [unfolded r1]
  from nodeConnection_Inr [OF nc] have ok: "connectionOk dec grp" by simp
  show ?case
  proof (cases "map_of grp (KStr ''children'')")
    case None
    with nc "1.prems" have "leafHost host grp q st1 = (Inr hs, st')" by simp
    from leafHost_Inr [OF this] ok None show ?thesis
      by (simp add: wellFormed.simps [of dec grp])
  next
    case (Some children)
    with nc "1.prems" have m: "isMap children"
      by (auto split: if_splits)
    with nc Some "1.prems"
    have "parseChildren dec name (asMap children) q [] st1 = (Inr hs, st')" by simp
    from "1.IH" [OF nc [symmetric] refl Some m this] ok Some m show ?thesis
      by (simp add: wellFormed.simps [of dec grp])
  qed
next
  case (2 dec name currentConn allHosts st)
  then show ?case by simp
next
  case (3 dec name k v rest p acc st)
  let ?st0 = "childGroup name v st"
  obtain r1 st1 where pc: "parseConfig dec (name @ '':'' @ sprintf_s k) (sprintf_s k) (asMap v)
      p ?st0 = (r1, st1)"
    by (cases "parseConfig dec (name @ '':'' @ sprintf_s k) (sprintf_s k) (asMap v) p ?st0")
  from pc "3.prems" obtain hs1 where r1: "r1 = Inr hs1"
    by (cases r1) auto
  note pc = pc [unfolded r1]
  from pc "3.prems"
  have rest: "parseChildren dec name rest p (acc @ hs1) st1 = (Inr hs', st'')" by simp
  from "3.IH"(1) [OF pc] "3.IH"(2) [OF pc [symmetric] refl rest] show ?case by simp
qed

subsection \<open>Addresses, evaluation on concrete trees, and the loop over the metrics\<close>

lemma Resolve_keys: "map fst (Resolve dec host grp inh) = leafKeys host grp"
proof (induction dec host grp inh rule: Resolve.induct)
  case (1 dec host grp inherited)
  show ?case
  proof (cases "map_of grp (KStr ''children'')")
    case None
    then show ?thesis
      by (simp add: Resolve.simps [of dec host grp] leafKeys.simps [of host grp])
  next
    case (Some children)
    have "map (\<lambda>kv. map fst (Resolve dec (sprintf_s (fst kv)) (asMap (snd kv))
              (resolvedConnection dec grp inherited))) (asMap children) =
          map (\<lambda>kv. leafKeys (sprintf_s (fst kv)) (asMap (snd kv))) (asMap children)"
      by (rule map_cong [OF refl]) (rule "1.IH" [OF Some])
    then have "concat (map (\<lambda>kv. map fst (Resolve dec (sprintf_s (fst kv)) (asMap (snd kv))
              (resolvedConnection dec grp inherited))) (asMap children)) =
          concat (map (\<lambda>kv. leafKeys (sprintf_s (fst kv)) (asMap (snd kv))) (asMap children))"
      by (rule arg_cong)
    then show ?thesis
      by (simp add: Resolve.simps [of dec host grp] leafKeys.simps [of host grp] Some
          map_concat o_def)
  qed
qed

lemma view_addresses:
  "map fst (inherited_view st hs) = map Address hs" "map fst (spec_view rs) = map fst rs"
  by (simp_all add: inherited_view_def spec_view_def o_def)

lemma parseConfig_addresses:
  assumes "p < length (heap st)" and "parseConfig dec name host grp p st = (Inr hs, st')"
  shows "map Address hs = leafKeys host grp"
  using arg_cong [OF conjunct2 [OF parse_view(1) [OF assms]], of "map fst"]
  by (simp add: view_addresses Resolve_keys)

lemma length_concat_Resolve:
  "length (concat (map (\<lambda>kv. Resolve dec (sprintf_s (fst kv)) (asMap (snd kv)) c) cs)) = leavesOf cs"
  by (simp add: length_concat o_def length_Resolve leavesOf_def)

lemma Resolve_children_split:
  assumes "map_of grp (KStr ''children'') = Some (YMap (pre @ (k, v) # post))"
  shows "spec_view (Resolve dec host grp inh) =
     spec_view (concat (map (\<lambda>kv. Resolve dec (sprintf_s (fst kv)) (asMap (snd kv))
                    (resolvedConnection dec grp inh)) pre)) @
     spec_view (Resolve dec (sprintf_s k) (asMap v) (resolvedConnection dec grp inh)) @
     spec_view (concat (map (\<lambda>kv. Resolve dec (sprintf_s (fst kv)) (asMap (snd kv))
                    (resolvedConnection dec grp inh)) post))"
  using assms by (simp add: Resolve.simps [of dec host grp] spec_view_append)

lemma resolvedConnection_same_entry:
  "map_of grp' (KStr ''connection'') = map_of grp (KStr ''connection'') \<Longrightarrow>
     resolvedConnection dec grp' inh = resolvedConnection dec grp inh"
  by (simp add: resolvedConnection_def)

lemma siblings_unchanged:
  assumes p: "p < length (heap st)"
    and run: "parseConfig dec name host grp p st = (Inr hs, st')"
    and c: "map_of grp (KStr ''children'') = Some (YMap (pre @ (k, v) # post))"
    and c': "map_of grp' (KStr ''children'') = Some (YMap (pre @ (k, v') # post))"
    and same: "map_of grp' (KStr ''connection'') = map_of grp (KStr ''connection'')"
    and run': "parseConfig dec name host grp' p st = (Inr hs2, st2)"
  shows "take (leavesOf pre) (inherited_view st2 hs2) = take (leavesOf pre) (inherited_view st' hs) \<and>
         drop (leavesOf pre + numLeaves (asMap v')) (inherited_view st2 hs2) =
         drop (leavesOf pre + numLeaves (asMap v)) (inherited_view st' hs)"
proof -
  let ?c = "resolvedConnection dec grp (heap st ! p)"
  let ?A = "spec_view (concat (map (\<lambda>kv. Resolve dec (sprintf_s (fst kv)) (asMap (snd kv)) ?c) pre))"
  let ?B = "spec_view (concat (map (\<lambda>kv. Resolve dec (sprintf_s (fst kv)) (asMap (snd kv)) ?c) post))"
  let ?M = "spec_view (Resolve dec (sprintf_s k) (asMap v) ?c)"
  let ?M' = "spec_view (Resolve dec (sprintf_s k) (asMap v') ?c)"
  have v1: "inherited_view st' hs = ?A @ ?M @ ?B"
    using parse_view(1) [OF p run] Resolve_children_split [OF c, of dec host "heap st ! p"]
    by simp
  have v2: "inherited_view st2 hs2 = ?A @ ?M' @ ?B"
    using parse_view(1) [OF p run'] Resolve_children_split [OF c', of dec host "heap st ! p"]
    by (simp add: resolvedConnection_same_entry [OF same])
  have lA: "length ?A = leavesOf pre"
    by (simp add: length_views length_concat_Resolve)
  have lM: "length ?M = numLeaves (asMap v)" and lM': "length ?M' = numLeaves (asMap v')"
    by (simp_all add: length_views length_Resolve)
  show ?thesis
    unfolding v1 v2 using lA lM lM' by simp
qed

lemma mset_concat_map_perm:
  "mset cs' = mset cs \<Longrightarrow> mset (concat (map f cs')) = mset (concat (map f cs))"
proof -
  assume "mset cs' = mset cs"
  then have "image_mset (\<lambda>x. mset (f x)) (mset cs') = image_mset (\<lambda>x. mset (f x)) (mset cs)"
    by simp
  then have "sum_mset (image_mset (\<lambda>x. mset (f x)) (mset cs')) =
             sum_mset (image_mset (\<lambda>x. mset (f x)) (mset cs))"
    by simp
  then show ?thesis
    by (simp add: mset_concat o_def flip: sum_mset_sum_list)
qed

lemma wellFormed_leaf:
  "map_of grp (KStr ''children'') = None \<Longrightarrow>
     wellFormed dec grp = (connectionOk dec grp \<and> aliasOk grp)"
  by (simp add: wellFormed.simps [of dec grp])

lemma wellFormed_group:
  "map_of grp (KStr ''children'') \<noteq> None \<Longrightarrow>
     wellFormed dec grp =
       (connectionOk dec grp \<and> isMap (the (map_of grp (KStr ''children''))) \<and>
        list_all (\<lambda>kv. wellFormed dec (asMap (snd kv))) (asMap (the (map_of grp (KStr ''children'')))))"
  by (auto simp: wellFormed.simps [of dec grp])

lemma numLeaves_leaf: "map_of grp (KStr ''children'') = None \<Longrightarrow> numLeaves grp = 1"
  by (simp add: numLeaves.simps [of grp])

lemma numLeaves_group:
  "map_of grp (KStr ''children'') \<noteq> None \<Longrightarrow>
     numLeaves grp =
       sum_list (map (\<lambda>kv. numLeaves (asMap (snd kv))) (asMap (the (map_of grp (KStr ''children'')))))"
  by (auto simp: numLeaves.simps [of grp])

lemma leafKeys_leaf: "map_of grp (KStr ''children'') = None \<Longrightarrow> leafKeys host grp = [host]"
  by (simp add: leafKeys.simps [of host grp])

lemma leafKeys_group:
  "map_of grp (KStr ''children'') \<noteq> None \<Longrightarrow>
     leafKeys host grp =
       concat (map (\<lambda>kv. leafKeys (sprintf_s (fst kv)) (asMap (snd kv)))
                 (asMap (the (map_of grp (KStr ''children'')))))"
  by (auto simp: leafKeys.simps [of host grp])

lemma Resolve_leaf:
  "map_of grp (KStr ''children'') = None \<Longrightarrow>
     Resolve dec host grp inh = [(host, (resolvedConnection dec grp inh)\<lparr>Host := host\<rparr>)]"
  by (simp add: Resolve.simps [of dec host grp])

lemma Resolve_group:
  "map_of grp (KStr ''children'') \<noteq> None \<Longrightarrow>
     Resolve dec host grp inh =
       concat (map (\<lambda>kv. Resolve dec (sprintf_s (fst kv)) (asMap (snd kv))
                            (resolvedConnection dec grp inh))
                 (asMap (the (map_of grp (KStr ''children'')))))"
  by (auto simp: Resolve.simps [of dec host grp])

lemmas tree_eval =
  wellFormed_leaf wellFormed_group numLeaves_leaf numLeaves_group leafKeys_leaf leafKeys_group
  Resolve_leaf Resolve_group connectionOk_def aliasOk_def resolvedConnection_def
  decodeExact_def strField_def

lemmas run_eval =
  GetDashboardInfoConfig_def nodeConnection_def leafHost_def childGroup_def logf_def deref_def
  parseConnection_def alloc_def decodeExact_def strField_def zeroConnection_def initial_def Let_def

lemma nodeConnection_first_log:
  assumes "nodeConnection dec name host grp p st = (r, st1)"
  shows "take (Suc (length (logs st))) (logs st1) = logs st @ [Info_Loading name host (deref st p)]"
proof (cases "map_of grp (KStr ''connection'')")
  case None
  with assms show ?thesis
    by (auto simp: nodeConnection_unfold logf_def)
next
  case (Some conn)
  define st0 where "st0 = (if isMap conn then logf (Info_Loading name host (deref st p)) st
             else logf (Error_msg (''Failed to parse connection for '' @ name))
                    (logf (Info_Loading name host (deref st p)) st))"
  have l: "take (Suc (length (logs st))) (logs st0) = logs st @ [Info_Loading name host (deref st p)]"
    by (simp add: st0_def logf_def)
  from assms Some have "parseConnection dec (asMap conn) st0 = (r, st1)"
    by (simp add: nodeConnection_unfold st0_def)
  from parseConnection_result [OF this] l show ?thesis
    by auto
qed

lemma parseConfig_after_node:
  assumes "parseConfig dec name host grp p st = (r, st')"
    and "nodeConnection dec name host grp p st = (r1, st1)"
  shows "extends st1 st'"
proof (cases r1)
  case (Inl e)
  with assms show ?thesis by (simp add: extends_refl)
next
  case (Inr q)
  show ?thesis
  proof (cases "map_of grp (KStr ''children'')")
    case None
    with assms Inr have "leafHost host grp q st1 = (r, st')" by simp
    then show ?thesis by (rule leafHost_extends)
  next
    case (Some children)
    show ?thesis
    proof (cases "isMap children")
      case True
      with assms Inr Some
      have "parseChildren dec name (asMap children) q [] st1 = (r, st')" by simp
      then show ?thesis by (rule parse_extends(2))
    next
      case False
      with assms Inr Some show ?thesis by (simp add: extends_refl)
    qed
  qed
qed

lemma parseConfig_first_log:
  assumes "parseConfig dec name host grp p st = (r, st')"
  shows "take (Suc (length (logs st))) (logs st') = logs st @ [Info_Loading name host (deref st p)]"
proof -
  obtain r1 st1 where nc: "nodeConnection dec name host grp p st = (r1, st1)"
    by (cases "nodeConnection dec name host grp p st")
  note first = nodeConnection_first_log [OF nc]
  from arg_cong [OF first, of length] have len: "Suc (length (logs st)) \<le> length (logs st1)"
    by simp
  from parseConfig_after_node [OF assms nc]
  have "take (length (logs st1)) (logs st') = logs st1"
    by (simp add: extends_def)
  then have "take (Suc (length (logs st))) (logs st') = take (Suc (length (logs st))) (logs st1)"
    using len by (metis min.absorb1 take_take)
  with first show ?thesis by simp
qed

lemma metricsLoop_Inr:
  "metricsLoop Valid fmtv ms acc = Inr r \<Longrightarrow>
     (\<forall>kv\<in>set ms. Valid (sprintf_v (fst kv))) \<and>
     r = acc ++ map_of (rev (map (\<lambda>kv. (sprintf_v (fst kv), fmtv (snd kv))) ms))"
proof (induction ms arbitrary: acc)
  case Nil
  then show ?case by simp
next
  case (Cons kv rest)
  obtain k v where kv: "kv = (k, v)" by (cases kv)
  from Cons.prems kv have valid: "Valid (sprintf_v k)"
    by (auto simp: Let_def split: if_splits)
  with Cons.prems kv
  have step: "metricsLoop Valid fmtv rest (acc(sprintf_v k \<mapsto> fmtv v)) = Inr r"
    by (simp add: Let_def)
  note ih = Cons.IH [of "acc(sprintf_v k \<mapsto> fmtv v)", OF step]
  from ih have all: "\<forall>kv\<in>set rest. Valid (sprintf_v (fst kv))" ..
  from ih have r: "r = acc(sprintf_v k \<mapsto> fmtv v) ++
                map_of (rev (map (\<lambda>kv. (sprintf_v (fst kv), fmtv (snd kv))) rest))" ..
  have "acc(sprintf_v k \<mapsto> fmtv v) ++
          map_of (rev (map (\<lambda>kv. (sprintf_v (fst kv), fmtv (snd kv))) rest)) =
        acc ++ map_of (rev (map (\<lambda>kv. (sprintf_v (fst kv), fmtv (snd kv))) (kv # rest)))"
    by (rule ext) (simp add: kv map_add_def split: option.splits)
  with r have "r = acc ++ map_of (rev (map (\<lambda>kv. (sprintf_v (fst kv), fmtv (snd kv))) (kv # rest)))"
    by (rule trans)
  moreover from all valid kv have "\<forall>kv\<in>set (kv # rest). Valid (sprintf_v (fst kv))"
    by simp
  ultimately show ?case by (rule conjI [rotated])
qed

lemma metricsLoop_Inl:
  "\<exists>kv\<in>set ms. \<not> Valid (sprintf_v (fst kv)) \<Longrightarrow>
     \<exists>m. \<not> Valid m \<and> metricsLoop Valid fmtv ms acc = Inl (Fatal (''Found invalid metric '' @ m))"
proof (induction ms arbitrary: acc)
  case Nil
  then show ?case by simp
next
  case (Cons kv rest)
  obtain k v where kv: "kv = (k, v)" by (cases kv)
  show ?case
  proof (cases "Valid (sprintf_v k)")
    case True
    with Cons.prems kv have "\<exists>kv\<in>set rest. \<not> Valid (sprintf_v (fst kv))" by auto
    from Cons.IH [OF this] True kv show ?thesis by (simp add: Let_def)
  next
    case False
    with kv show ?thesis by (auto simp: Let_def)
  qed
qed

lemma map_of_rev_kept:
  assumes "kv \<in> set ms"
  shows "\<exists>kv'\<in>set ms. f kv' = f kv \<and>
           (acc ++ map_of (rev (map (\<lambda>kv. (f kv, g kv)) ms))) (f kv) = Some (g kv')"
proof -
  let ?l = "rev (map (\<lambda>kv. (f kv, g kv)) ms)"
  from assms have "f kv \<in> fst ` set ?l" by force
  then obtain c where c: "map_of ?l (f kv) = Some c"
    by (cases "map_of ?l (f kv)") (auto simp: map_of_eq_None_iff)
  from map_of_SomeD [OF c] obtain kv' where "kv' \<in> set ms" "f kv' = f kv" "c = g kv'"
    by auto
  with c show ?thesis by (auto simp: map_add_Some_iff)
qed

lemma map_of_rev_distinct:
  assumes "kv \<in> set ms" and "distinct (map f ms)"
  shows "(acc ++ map_of (rev (map (\<lambda>kv. (f kv, g kv)) ms))) (f kv) = Some (g kv)"
proof -
  let ?l = "rev (map (\<lambda>kv. (f kv, g kv)) ms)"
  have "distinct (map fst ?l)"
    using assms(2) by (simp add: rev_map [symmetric] o_def)
  moreover have "(f kv, g kv) \<in> set ?l"
    using assms(1) by auto
  ultimately have "map_of ?l (f kv) = Some (g kv)"
    by (rule map_of_is_SomeI)
  then show ?thesis by (simp add: map_add_Some_iff)
qed

lemma parseConnection_ok:
  assumes "Password (dec conn) = '''' \<or> PrivateKeyPath (dec conn) = ''''"
  shows "parseConnection dec conn st =
     (Inr (length (heap st)),
      st\<lparr>heap := heap st @ [if Type (dec conn) = ''ssh'' \<and> Port (dec conn) = 0
                               then (dec conn)\<lparr>Port := 22\<rparr> else dec conn]\<rparr>)"
  using assms by (auto simp: parseConnection_def alloc_def Let_def)

subsection \<open>Trees revisited\<close>

lemma revisit_unfold:
  "revisit visit grp =
     map (\<lambda>kv. if fst kv = KStr ''children'' \<and> isMap (snd kv) then
                  (fst kv, YMap (inOrder visit (map (revisitChild visit) (asMap (snd kv)))))
                else kv)
         grp"
  by (subst revisit.simps) (simp add: revisitChild_def [abs_def])

lemma revisit_Nil: "revisit visit [] = []"
  by (simp add: revisit_unfold)

lemma revisit_Cons:
  "revisit visit (kv # grp) =
     (if fst kv = KStr ''children'' \<and> isMap (snd kv) then
        (fst kv, YMap (inOrder visit (map (revisitChild visit) (asMap (snd kv)))))
      else kv) # revisit visit grp"
  by (simp add: revisit_unfold [of visit "kv # grp"] revisit_unfold [of visit grp])

lemma mset_inOrder: "mset (inOrder visit m) = mset m"
  by (simp add: inOrder_def)

lemma set_inOrder: "set (inOrder visit m) = set m"
  using mset_inOrder [of visit m] by (rule mset_eq_setD)

lemma asMap_revisitChild: "asMap (snd (revisitChild visit c)) = revisit visit (asMap (snd c))"
  by (cases "snd c") (simp_all add: revisitChild_def revisit_Nil)

lemma fst_revisitChild: "fst (revisitChild visit c) = fst c"
  by (simp add: revisitChild_def)

lemma map_of_map_same_keys:
  assumes "\<And>kv. fst (h kv) = fst kv"
  shows "map_of (map h l) k = map_option (\<lambda>v. snd (h (k, v))) (map_of l k)"
proof (induction l)
  case Nil
  show ?case by simp
next
  case (Cons kv l)
  obtain k' v' where kv: "kv = (k', v')" by (cases kv)
  obtain k'' v'' where h: "h (k', v') = (k'', v'')" by (cases "h (k', v')")
  from assms [of "(k', v')"] h have "k'' = k'" by simp
  with Cons kv h show ?case by simp
qed

lemma map_of_revisit:
  "map_of (revisit visit grp) k =
     (if k = KStr ''children'' then
        map_option (\<lambda>v. if isMap v then YMap (inOrder visit (map (revisitChild visit) (asMap v))) else v)
          (map_of grp k)
      else map_of grp k)"
proof -
  let ?h = "\<lambda>kv. if fst kv = KStr ''children'' \<and> isMap (snd kv) then
                  (fst kv, YMap (inOrder visit (map (revisitChild visit) (asMap (snd kv)))))
                else kv"
  have keys: "fst (?h kv) = fst kv" for kv by simp
  have "map_of (map ?h grp) k = map_option (\<lambda>v. snd (?h (k, v))) (map_of grp k)"
    using keys by (rule map_of_map_same_keys)
  then show ?thesis
    by (cases "map_of grp k") (auto simp: revisit_unfold [of visit grp])
qed

lemma wellFormed_revisit: "wellFormed dec (revisit visit grp) = wellFormed dec grp"
proof (induction dec grp rule: wellFormed.induct)
  case (1 dec grp)
  have conn: "connectionOk dec (revisit visit grp) = connectionOk dec grp"
    by (simp add: connectionOk_def map_of_revisit)
  have al: "aliasOk (revisit visit grp) = aliasOk grp"
    by (simp add: aliasOk_def map_of_revisit)
  show ?case
  proof (cases "map_of grp (KStr ''children'')")
    case None
    with conn al show ?thesis
      by (simp add: wellFormed.simps [of dec grp] wellFormed.simps [of dec "revisit visit grp"]
          map_of_revisit)
  next
    case (Some children)
    show ?thesis
    proof (cases "isMap children")
      case False
      with Some conn show ?thesis
        by (simp add: wellFormed.simps [of dec grp] wellFormed.simps [of dec "revisit visit grp"]
            map_of_revisit)
    next
      case True
      have "list_all (\<lambda>kv. wellFormed dec (asMap (snd kv)))
              (inOrder visit (map (revisitChild visit) (asMap children))) =
            list_all (\<lambda>kv. wellFormed dec (asMap (snd kv))) (asMap children)"
        using "1.IH" [OF Some]
        by (simp add: list_all_iff set_inOrder asMap_revisitChild)
      with Some True conn show ?thesis
        by (simp add: wellFormed.simps [of dec grp] wellFormed.simps [of dec "revisit visit grp"]
            map_of_revisit)
    qed
  qed
qed

lemma mset_concat_map_cong:
  "(\<And>x. x \<in> set cs \<Longrightarrow> mset (f x) = mset (g x)) \<Longrightarrow>
     mset (concat (map f cs)) = mset (concat (map g cs))"
  by (induction cs) simp_all

lemma leafKeys_revisit: "mset (leafKeys host (revisit visit grp)) = mset (leafKeys host grp)"
proof (induction host grp rule: leafKeys.induct)
  case (1 host grp)
  show ?case
  proof (cases "map_of grp (KStr ''children'')")
    case None
    then show ?thesis
      by (simp add: leafKeys.simps [of host grp] leafKeys.simps [of host "revisit visit grp"]
          map_of_revisit)
  next
    case (Some children)
    show ?thesis
    proof (cases "isMap children")
      case False
      with Some show ?thesis
        by (simp add: leafKeys.simps [of host grp] leafKeys.simps [of host "revisit visit grp"]
            map_of_revisit)
    next
      case True
      let ?f = "\<lambda>kv. leafKeys (sprintf_s (fst kv)) (asMap (snd kv))"
      have "mset (concat (map ?f (inOrder visit (map (revisitChild visit) (asMap children))))) =
            mset (concat (map ?f (map (revisitChild visit) (asMap children))))"
        by (rule mset_concat_map_perm) (rule mset_inOrder)
      also have "\<dots> = mset (concat (map (\<lambda>kv. leafKeys (sprintf_s (fst kv)) (revisit visit (asMap (snd kv))))
                                    (asMap children)))"
        by (simp add: o_def asMap_revisitChild fst_revisitChild)
      also have "\<dots> = mset (concat (map ?f (asMap children)))"
        by (rule mset_concat_map_cong) (rule "1.IH" [OF Some])
      finally show ?thesis
        using Some True
        by (simp add: leafKeys.simps [of host grp] leafKeys.simps [of host "revisit visit grp"]
            map_of_revisit)
    qed
  qed
qed

lemmas revisit_eval = revisit_Nil revisit_Cons revisitChild_def inOrder_def

section \<open>The claims\<close>

subsection \<open>C1: one host per leaf\<close>

text \<open>
  C1. For every well-formed tree and every connection pointer in the store,
  \<open>parseConfig\<close> returns, the addresses of the hosts it returns are the keys of the leaf
  nodes in traversal order (one host for each node without \<open>children\<close>, none for a node
  with \<open>children\<close>), and their number is the number of leaves.
\<close>

theorem parseConfig_one_host_per_leaf:
  assumes "wellFormed dec grp" and "currentConnection < length (heap st)"
  shows "\<exists>hs st'. parseConfig dec name host grp currentConnection st = (Inr hs, st') \<and>
           map Address hs = leafKeys host grp \<and> length hs = numLeaves grp"
proof -
  from parse_total(1) [OF assms]
  obtain hs st' where run: "parseConfig dec name host grp currentConnection st = (Inr hs, st')"
    by blast
  from parseConfig_addresses [OF assms(2) run] parseConfig_length [OF assms(2) run] run
  show ?thesis by simp
qed

theorem parseConfig_one_host_per_leaf_witness:
  "wellFormed decodeExact fleet \<and>
   (\<exists>hs st'. parseConfig decodeExact ''root'' '''' fleet 0 \<lparr>heap = [zeroConnection], logs = []\<rparr> = (Inr hs, st') \<and>
      map Address hs = [''web'', ''db'', ''c1'', ''c2''] \<and> length hs = 4)"
proof -
  have wf: "wellFormed decodeExact fleet"
    by (simp add: fleet_def tree_eval)
  have p: "0 < length (heap \<lparr>heap = [zeroConnection], logs = []\<rparr>)"
    by simp
  have keys: "leafKeys '''' fleet = [''web'', ''db'', ''c1'', ''c2'']"
    by (simp add: fleet_def tree_eval)
  have n: "numLeaves fleet = 4"
    by (simp add: fleet_def tree_eval)
  from parseConfig_one_host_per_leaf [OF wf p, of "''root''" "''''"] wf keys n
  show ?thesis by simp
qed

subsection \<open>C2: the connection of a host and its target\<close>

text \<open>
  C2. The source sets \<open>currentConn.Host = host\<close> through the pointer that all leaves
  below one ancestor share, so the claim fails: for two bare leaves \<open>a\<close> and \<open>b\<close> under
  the root, both hosts hold pointer 0, and once the resolution has returned the
  connection behind it names \<open>b\<close> as its host, for the host \<open>a\<close> as well.
\<close>

theorem sibling_leaves_share_connection:
  "\<exists>d st'. GetDashboardInfoConfig decodeExact Valid fmtv two_leaves initial = (Inr d, st') \<and>
     map (\<lambda>h. (Address h, Connection h, Host (heap st' ! Connection h))) (Hosts d) =
       [(''a'', 0, ''b''), (''b'', 0, ''b'')]"
  by (simp add: two_leaves_def run_eval)

subsection \<open>C3: inheritance of connections\<close>

text \<open>
  C3. The hosts \<open>parseConfig\<close> returns, each with the connection its pointer leads to,
  are those of the specification's \<open>Resolve\<close>: every leaf has the \<open>connection\<close> entry of
  its nearest ancestor or of itself, decoded, and the connection the root call was given
  where there is none. The target host is left out on both sides (it is bound to the
  leaf, see C2). Moreover, when only the subtree of one child \<open>k\<close> of a node is changed
  (an override declared in it, say), the hosts of the children before \<open>k\<close> and of those
  after \<open>k\<close> keep their connections.
\<close>

theorem resolved_connection_nearest_ancestor:
  assumes "currentConnection < length (heap st)"
    and "parseConfig dec name host grp currentConnection st = (Inr hs, st')"
  shows "inherited_view st' hs = spec_view (Resolve dec host grp (heap st ! currentConnection)) \<and>
     (\<forall>pre k v post v' grp' hs2 st2.
        map_of grp (KStr ''children'') = Some (YMap (pre @ (k, v) # post)) \<longrightarrow>
        map_of grp' (KStr ''children'') = Some (YMap (pre @ (k, v') # post)) \<longrightarrow>
        map_of grp' (KStr ''connection'') = map_of grp (KStr ''connection'') \<longrightarrow>
        parseConfig dec name host grp' currentConnection st = (Inr hs2, st2) \<longrightarrow>
          take (leavesOf pre) (inherited_view st2 hs2) = take (leavesOf pre) (inherited_view st' hs) \<and>
          drop (leavesOf pre + numLeaves (asMap v')) (inherited_view st2 hs2) =
          drop (leavesOf pre + numLeaves (asMap v)) (inherited_view st' hs))"
  using parse_view(1) [OF assms] siblings_unchanged [OF assms]
  by blast

theorem resolved_connection_nearest_ancestor_witness:
  "\<exists>hs st'. parseConfig decodeExact ''root'' '''' web_db 0 local_root = (Inr hs, st') \<and>
      inherited_view st' hs =
        [(''web'', zeroConnection\<lparr>Type := ''ssh'', Port := 2222\<rparr>),
         (''db'', zeroConnection\<lparr>Type := ''local''\<rparr>)] \<and>
      (\<exists>hs2 st2. parseConfig decodeExact ''root'' '''' web_db_plain 0 local_root = (Inr hs2, st2) \<and>
         drop 1 (inherited_view st2 hs2) = drop 1 (inherited_view st' hs))"
proof -
  have p: "0 < length (heap local_root)"
    by (simp add: local_root_def)
  have "wellFormed decodeExact web_db"
    by (simp add: web_db_def tree_eval)
  from parse_total(1) [OF this p]
  obtain hs st' where run: "parseConfig decodeExact ''root'' '''' web_db 0 local_root = (Inr hs, st')"
    by blast
  have "wellFormed decodeExact web_db_plain"
    by (simp add: web_db_plain_def tree_eval)
  from parse_total(1) [OF this p]
  obtain hs2 st2
    where run2: "parseConfig decodeExact ''root'' '''' web_db_plain 0 local_root = (Inr hs2, st2)"
    by blast
  note main = resolved_connection_nearest_ancestor [OF p run]
  have "spec_view (Resolve decodeExact '''' web_db (heap local_root ! 0)) =
        [(''web'', zeroConnection\<lparr>Type := ''ssh'', Port := 2222\<rparr>),
         (''db'', zeroConnection\<lparr>Type := ''local''\<rparr>)]"
    by (simp add: web_db_def tree_eval spec_view_def withoutHost_def zeroConnection_def
        local_root_def)
  with main have v: "inherited_view st' hs =
        [(''web'', zeroConnection\<lparr>Type := ''ssh'', Port := 2222\<rparr>),
         (''db'', zeroConnection\<lparr>Type := ''local''\<rparr>)]"
    by simp
  have c: "map_of web_db (KStr ''children'') =
       Some (YMap ([] @ (KStr ''web'', YMap [(KStr ''connection'',
                                 YMap [(KStr ''type'', YStr ''ssh''), (KStr ''port'', YInt 2222)])])
                    # [(KStr ''db'', YMap [])]))"
    by (simp add: web_db_def)
  have c': "map_of web_db_plain (KStr ''children'') =
       Some (YMap ([] @ (KStr ''web'', YMap []) # [(KStr ''db'', YMap [])]))"
    by (simp add: web_db_plain_def)
  have same: "map_of web_db_plain (KStr ''connection'') = map_of web_db (KStr ''connection'')"
    by (simp add: web_db_def web_db_plain_def)
  from conjunct2 [OF main, rule_format, OF c c' same run2]
  have "drop 1 (inherited_view st2 hs2) = drop 1 (inherited_view st' hs)"
    by (simp add: leavesOf_def tree_eval)
  with run run2 v show ?thesis by blast
qed

subsection \<open>C4: the order of the hosts\<close>

text \<open>
  C4, as stated, fails: the sequence follows the order in which \<open>range\<close> visits the
  children, and Go does not fix that order. The tree with the bare leaves \<open>a\<close> and \<open>b\<close>
  gives the hosts as \<open>a, b\<close> in the run that visits them so, and as \<open>b, a\<close> in the run
  that visits them the other way round.
\<close>

theorem host_order_counterexample:
  "fst (parseConfig decodeExact ''root'' '''' bare_pair 0 \<lparr>heap = [zeroConnection], logs = []\<rparr>) =
     Inr [\<lparr>Address = ''a'', Alias = '''', Connection = 0\<rparr>,
          \<lparr>Address = ''b'', Alias = '''', Connection = 0\<rparr>] \<and>
   fst (parseConfig decodeExact ''root'' '''' (revisit rev bare_pair) 0
          \<lparr>heap = [zeroConnection], logs = []\<rparr>) =
     Inr [\<lparr>Address = ''b'', Alias = '''', Connection = 0\<rparr>,
          \<lparr>Address = ''a'', Alias = '''', Connection = 0\<rparr>]"
  by (simp add: bare_pair_def revisit_eval run_eval)

text \<open>
  C4, amended. For a connection pointer in the store, a run on a tree returns exactly
  when every other run on the same tree does, whatever order it visits the children
  maps in at any depth. Each of them gives the hosts in the order of its own traversal
  (the leaf keys, each children map in the order the run visits it), and they give the
  same addresses up to their order.
\<close>

theorem host_order_follows_visiting_order:
  assumes "currentConnection < length (heap st)"
  shows "((\<exists>hs' st2. parseConfig dec name host (revisit visit grp) currentConnection st = (Inr hs', st2)) =
          (\<exists>hs st1. parseConfig dec name host grp currentConnection st = (Inr hs, st1))) \<and>
         (\<forall>hs st1 hs' st2.
            parseConfig dec name host grp currentConnection st = (Inr hs, st1) \<longrightarrow>
            parseConfig dec name host (revisit visit grp) currentConnection st = (Inr hs', st2) \<longrightarrow>
              map Address hs = leafKeys host grp \<and>
              map Address hs' = leafKeys host (revisit visit grp) \<and>
              mset (map Address hs') = mset (map Address hs))"
proof (intro conjI allI impI)
  have "(\<exists>hs st1. parseConfig dec name host g currentConnection st = (Inr hs, st1)) = wellFormed dec g"
    for g
    using parse_total(1) [OF _ assms, of dec g name host] parse_wellFormed(1) [of dec name host g]
    by blast
  from this [of grp] this [of "revisit visit grp"]
  show "(\<exists>hs' st2. parseConfig dec name host (revisit visit grp) currentConnection st = (Inr hs', st2)) =
        (\<exists>hs st1. parseConfig dec name host grp currentConnection st = (Inr hs, st1))"
    by (simp add: wellFormed_revisit)
next
  fix hs st1 hs' st2
  assume run: "parseConfig dec name host grp currentConnection st = (Inr hs, st1)"
    and run': "parseConfig dec name host (revisit visit grp) currentConnection st = (Inr hs', st2)"
  note a = parseConfig_addresses [OF assms run] and a' = parseConfig_addresses [OF assms run']
  show "map Address hs = leafKeys host grp" by (rule a)
  show "map Address hs' = leafKeys host (revisit visit grp)" by (rule a')
  show "mset (map Address hs') = mset (map Address hs)"
    unfolding a a' by (rule leafKeys_revisit)
qed

theorem host_order_follows_visiting_order_witness:
  "\<exists>hs st1 hs' st2.
     parseConfig decodeExact ''root'' '''' fleet 0 \<lparr>heap = [zeroConnection], logs = []\<rparr> = (Inr hs, st1) \<and>
     parseConfig decodeExact ''root'' '''' (revisit rev fleet) 0 \<lparr>heap = [zeroConnection], logs = []\<rparr>
        = (Inr hs', st2) \<and>
     map Address hs = [''web'', ''db'', ''c1'', ''c2''] \<and>
     map Address hs' = [''c2'', ''c1'', ''db'', ''web''] \<and>
     mset (map Address hs') = mset (map Address hs)"
proof -
  have p: "0 < length (heap \<lparr>heap = [zeroConnection], logs = []\<rparr>)"
    by simp
  note main = host_order_follows_visiting_order [OF p, of decodeExact "''root''" "''''" rev fleet]
  have "wellFormed decodeExact fleet"
    by (simp add: fleet_def tree_eval)
  from parse_total(1) [OF this p]
  obtain hs st1 where run:
    "parseConfig decodeExact ''root'' '''' fleet 0 \<lparr>heap = [zeroConnection], logs = []\<rparr> = (Inr hs, st1)"
    by blast
  with main obtain hs' st2 where run':
    "parseConfig decodeExact ''root'' '''' (revisit rev fleet) 0 \<lparr>heap = [zeroConnection], logs = []\<rparr>
        = (Inr hs', st2)"
    by blast
  have k: "leafKeys '''' fleet = [''web'', ''db'', ''c1'', ''c2'']"
    by (simp add: fleet_def tree_eval)
  have k': "leafKeys '''' (revisit rev fleet) = [''c2'', ''c1'', ''db'', ''web'']"
    by (simp add: fleet_def revisit_eval tree_eval)
  from conjunct2 [OF main, rule_format, OF run run'] run run' k k' show ?thesis
    by auto
qed

subsection \<open>C5: the poll interval\<close>

text \<open>
  C5, as stated, fails: the interval is checked after the hosts have been resolved. With
  \<open>poll-interval: 3\<close> and one leaf \<open>a\<close> the run ends in the fatal error, and by then the
  log holds the lines of the resolution and the root connection has been bound to \<open>a\<close>.
\<close>

theorem poll_interval_counterexample:
  "sint (poll_interval interval_3) < 5 \<and>
   GetDashboardInfoConfig decodeExact knownMetric sprintf_v_scalar interval_3 initial =
     (Inl (Fatal ''Cannot set poll interval below 5 seconds''),
      \<lparr>heap = [zeroConnection\<lparr>Host := ''a''\<rparr>],
       logs = [Info_Loading ''root'' '''' (Some zeroConnection),
               Info_Loading ''root:a'' ''a'' (Some zeroConnection),
               Debug_Host ''a'' (Some (zeroConnection\<lparr>Host := ''a''\<rparr>))]\<rparr>)"
  by (simp add: interval_3_def run_eval)

text \<open>
  C5, amended. With a poll interval below 5, \<open>GetDashboardInfoConfig\<close> never returns a
  \<open>DashboardInfo\<close>: it ends in an error. The resolution of the hosts has started before
  that (its first log line is written), and when the resolution and the check of the
  metrics both succeed the error is the fatal one of the poll interval, raised after
  every host has been logged.
\<close>

theorem poll_interval_checked_last:
  assumes "sint (poll_interval config) < 5"
  shows "\<exists>e st'. GetDashboardInfoConfig dec Valid fmtv config st = (Inl e, st') \<and>
           take (Suc (length (logs st))) (logs st') =
             logs st @ [Info_Loading ''root'' '''' (Some zeroConnection)] \<and>
           (\<forall>hs st1 ms.
              parseConfig dec ''root'' '''' (hosts config) (length (heap st))
                  (st\<lparr>heap := heap st @ [zeroConnection]\<rparr>) = (Inr hs, st1) \<longrightarrow>
              metricsLoop Valid fmtv (metrics config) Map.empty = Inr ms \<longrightarrow>
                e = Fatal ''Cannot set poll interval below 5 seconds'' \<and>
                logs st' = logs st1 @ map (\<lambda>h. Debug_Host (Address h) (deref st1 (Connection h))) hs)"
proof -
  let ?st0 = "st\<lparr>heap := heap st @ [zeroConnection]\<rparr>"
  obtain r1 st1 where pc:
    "parseConfig dec ''root'' '''' (hosts config) (length (heap st)) ?st0 = (r1, st1)"
    by (cases "parseConfig dec ''root'' '''' (hosts config) (length (heap st)) ?st0")
  from parseConfig_first_log [OF pc]
  have first: "take (Suc (length (logs st))) (logs st1) =
      logs st @ [Info_Loading ''root'' '''' (Some zeroConnection)]"
    by (simp add: deref_def)
  from arg_cong [OF first, of length] have len: "Suc (length (logs st)) \<le> length (logs st1)"
    by simp
  show ?thesis
  proof (cases r1)
    case (Inl e)
    with pc first show ?thesis
      by (simp add: GetDashboardInfoConfig_def alloc_def)
  next
    case (Inr hs)
    show ?thesis
    proof (cases "metricsLoop Valid fmtv (metrics config) Map.empty")
      case (Inl e)
      with pc Inr first show ?thesis
        by (simp add: GetDashboardInfoConfig_def alloc_def)
    next
      case ms: (Inr ms)
      with pc Inr first len assms show ?thesis
        by (simp add: GetDashboardInfoConfig_def alloc_def Let_def)
    qed
  qed
qed

theorem poll_interval_checked_last_witness:
  "sint (poll_interval ((with_metrics [(KStr ''memory'', YNil)])\<lparr>poll_interval := - 1\<rparr>)) < 5 \<and>
   (\<exists>st'. GetDashboardInfoConfig decodeExact knownMetric sprintf_v_scalar
        ((with_metrics [(KStr ''memory'', YNil)])\<lparr>poll_interval := - 1\<rparr>) initial =
          (Inl (Fatal ''Cannot set poll interval below 5 seconds''), st') \<and>
      take 1 (logs st') = [Info_Loading ''root'' '''' (Some zeroConnection)])"
proof -
  let ?cfg = "(with_metrics [(KStr ''memory'', YNil)])\<lparr>poll_interval := - 1\<rparr>"
  have low: "sint (poll_interval ?cfg) < 5"
    by (simp add: with_metrics_def)
  have "wellFormed decodeExact (hosts ?cfg)"
    by (simp add: with_metrics_def tree_eval)
  then obtain hs st1 where hosts_done:
    "parseConfig decodeExact ''root'' '''' (hosts ?cfg) (length (heap initial))
        (initial\<lparr>heap := heap initial @ [zeroConnection]\<rparr>) = (Inr hs, st1)"
    using parse_total(1) [of decodeExact "hosts ?cfg" "length (heap initial)"
        "initial\<lparr>heap := heap initial @ [zeroConnection]\<rparr>" "''root''" "''''"]
    by auto
  have metrics_done: "metricsLoop knownMetric sprintf_v_scalar (metrics ?cfg) Map.empty =
      Inr [''memory'' \<mapsto> ''<nil>'']"
    by (simp add: with_metrics_def knownMetric_def)
  from poll_interval_checked_last [OF low, of decodeExact knownMetric sprintf_v_scalar initial]
  obtain e st' where run: "GetDashboardInfoConfig decodeExact knownMetric sprintf_v_scalar ?cfg initial =
      (Inl e, st')"
    and first: "take (Suc (length (logs initial))) (logs st') =
      logs initial @ [Info_Loading ''root'' '''' (Some zeroConnection)]"
    and last: "\<forall>hs st1 ms.
      parseConfig decodeExact ''root'' '''' (hosts ?cfg) (length (heap initial))
          (initial\<lparr>heap := heap initial @ [zeroConnection]\<rparr>) = (Inr hs, st1) \<longrightarrow>
      metricsLoop knownMetric sprintf_v_scalar (metrics ?cfg) Map.empty = Inr ms \<longrightarrow>
        e = Fatal ''Cannot set poll interval below 5 seconds'' \<and>
        logs st' = logs st1 @ map (\<lambda>h. Debug_Host (Address h) (deref st1 (Connection h))) hs"
    by blast
  from last hosts_done metrics_done have "e = Fatal ''Cannot set poll interval below 5 seconds''"
    by blast
  with run first low show ?thesis
    by (simp add: initial_def)
qed

subsection \<open>C6: the default port\<close>

text \<open>
  C6. Whenever \<open>parseConnection\<close> does not stop on the two logins, it returns a pointer
  to a connection whose port is 22 if the decoded connection has type \<open>ssh\<close> and port 0,
  and whose port is the decoded one if that is not 0.
\<close>

theorem parseConnection_default_port:
  assumes "Password (dec conn) = '''' \<or> PrivateKeyPath (dec conn) = ''''"
  shows "\<exists>p st'. parseConnection dec conn st = (Inr p, st') \<and> p < length (heap st') \<and>
           (Type (dec conn) = ''ssh'' \<and> Port (dec conn) = 0 \<longrightarrow> Port (heap st' ! p) = 22) \<and>
           (Port (dec conn) \<noteq> 0 \<longrightarrow> Port (heap st' ! p) = Port (dec conn))"
  using assms by (simp add: parseConnection_ok [of dec conn])

theorem parseConnection_default_port_witness:
  "(\<exists>p st'. parseConnection decodeExact [(KStr ''type'', YStr ''ssh'')] initial = (Inr p, st')
       \<and> Port (heap st' ! p) = 22) \<and>
   (\<exists>p st'. parseConnection decodeExact [(KStr ''type'', YStr ''ssh''), (KStr ''port'', YInt 2222)] initial
         = (Inr p, st') \<and> Port (heap st' ! p) = 2222)"
  using parseConnection_default_port [of decodeExact "[(KStr ''type'', YStr ''ssh'')]" initial]
    parseConnection_default_port [of decodeExact "[(KStr ''type'', YStr ''ssh''), (KStr ''port'', YInt 2222)]" initial]
  by (auto simp: decodeExact_def strField_def)

subsection \<open>C7: password and private key\<close>

text \<open>
  C7. A decoded connection with both a password and a private key path makes
  \<open>parseConnection\<close> end in \<open>log.Fatal\<close>, whatever the other fields and the state are;
  with at most one of the two it returns a pointer.
\<close>

theorem parseConnection_both_logins:
  "(Password (dec conn) \<noteq> '''' \<and> PrivateKeyPath (dec conn) \<noteq> '''' \<longrightarrow>
      parseConnection dec conn st =
        (Inl (Fatal ''Cannot specify both password login and private key login on same connection''), st)) \<and>
   (Password (dec conn) = '''' \<or> PrivateKeyPath (dec conn) = '''' \<longrightarrow>
      (\<exists>p st'. parseConnection dec conn st = (Inr p, st')))"
  by (auto simp: parseConnection_def alloc_def Let_def)

theorem parseConnection_both_logins_witness:
  "parseConnection decodeExact
      [(KStr ''type'', YStr ''ssh''), (KStr ''password'', YStr ''pw''),
       (KStr ''private_key_path'', YStr ''/id_rsa'')] initial =
     (Inl (Fatal ''Cannot specify both password login and private key login on same connection''), initial) \<and>
   (\<exists>p st'. parseConnection decodeExact [(KStr ''password'', YStr ''pw'')] initial = (Inr p, st'))"
  using parseConnection_both_logins [of decodeExact
      "[(KStr ''type'', YStr ''ssh''), (KStr ''password'', YStr ''pw''),
       (KStr ''private_key_path'', YStr ''/id_rsa'')]" initial]
    parseConnection_both_logins [of decodeExact "[(KStr ''password'', YStr ''pw'')]" initial]
  by (simp add: decodeExact_def strField_def)

subsection \<open>C8: metric names\<close>

text \<open>
  C8. If some configured metric name is not valid, \<open>GetDashboardInfoConfig\<close> returns no
  \<open>DashboardInfo\<close>, and once the hosts are resolved it ends in the fatal error that
  names an invalid metric. If it returns, every configured name is valid and is kept in
  \<open>Metrics\<close> with a custom command configured for that name; with names that are pairwise
  distinct once printed, each name is kept with its own custom command.
\<close>

theorem metric_names_validated:
  "((\<exists>kv\<in>set (metrics config). \<not> Valid (sprintf_v (fst kv))) \<longrightarrow>
      (\<exists>e st'. GetDashboardInfoConfig dec Valid fmtv config st = (Inl e, st')) \<and>
      (\<forall>hs st1.
         parseConfig dec ''root'' '''' (hosts config) (length (heap st))
             (st\<lparr>heap := heap st @ [zeroConnection]\<rparr>) = (Inr hs, st1) \<longrightarrow>
         (\<exists>m. \<not> Valid m \<and>
            GetDashboardInfoConfig dec Valid fmtv config st =
              (Inl (Fatal (''Found invalid metric '' @ m)), st1)))) \<and>
   (\<forall>d st'. GetDashboardInfoConfig dec Valid fmtv config st = (Inr d, st') \<longrightarrow>
      (\<forall>kv\<in>set (metrics config).
         Valid (sprintf_v (fst kv)) \<and>
         (\<exists>kv'\<in>set (metrics config). sprintf_v (fst kv') = sprintf_v (fst kv) \<and>
            Metrics d (sprintf_v (fst kv)) = Some (fmtv (snd kv')))) \<and>
      (distinct (map (\<lambda>kv. sprintf_v (fst kv)) (metrics config)) \<longrightarrow>
         (\<forall>kv\<in>set (metrics config). Metrics d (sprintf_v (fst kv)) = Some (fmtv (snd kv)))))"
proof (intro conjI impI allI)
  let ?st0 = "st\<lparr>heap := heap st @ [zeroConnection]\<rparr>"
  let ?run = "parseConfig dec ''root'' '''' (hosts config) (length (heap st)) ?st0"
  assume bad: "\<exists>kv\<in>set (metrics config). \<not> Valid (sprintf_v (fst kv))"
  from metricsLoop_Inl [OF bad, of fmtv Map.empty]
  obtain m where m: "\<not> Valid m"
    "metricsLoop Valid fmtv (metrics config) Map.empty = Inl (Fatal (''Found invalid metric '' @ m))"
    by blast
  obtain r1 st1 where pc: "?run = (r1, st1)" by (cases ?run)
  show "\<exists>e st'. GetDashboardInfoConfig dec Valid fmtv config st = (Inl e, st')"
    using pc m(2) by (cases r1) (simp_all add: GetDashboardInfoConfig_def alloc_def)
  fix hs st1'
  assume "?run = (Inr hs, st1')"
  with m show "\<exists>m. \<not> Valid m \<and>
            GetDashboardInfoConfig dec Valid fmtv config st =
              (Inl (Fatal (''Found invalid metric '' @ m)), st1')"
    by (auto simp: GetDashboardInfoConfig_def alloc_def)
next
  fix d st'
  assume run: "GetDashboardInfoConfig dec Valid fmtv config st = (Inr d, st')"
  then obtain ms where ms: "metricsLoop Valid fmtv (metrics config) Map.empty = Inr ms"
    and d: "Metrics d = ms"
    by (auto simp: GetDashboardInfoConfig_def alloc_def Let_def
        split: prod.splits sum.splits if_splits)
  note r = metricsLoop_Inr [OF ms]
  show "\<forall>kv\<in>set (metrics config).
         Valid (sprintf_v (fst kv)) \<and>
         (\<exists>kv'\<in>set (metrics config). sprintf_v (fst kv') = sprintf_v (fst kv) \<and>
            Metrics d (sprintf_v (fst kv)) = Some (fmtv (snd kv')))"
  proof
    fix kv assume kv: "kv \<in> set (metrics config)"
    from map_of_rev_kept [OF kv, of "\<lambda>kv. sprintf_v (fst kv)" Map.empty "\<lambda>kv. fmtv (snd kv)"] r kv d
    show "Valid (sprintf_v (fst kv)) \<and>
         (\<exists>kv'\<in>set (metrics config). sprintf_v (fst kv') = sprintf_v (fst kv) \<and>
            Metrics d (sprintf_v (fst kv)) = Some (fmtv (snd kv')))"
      by simp
  qed
  assume dist: "distinct (map (\<lambda>kv. sprintf_v (fst kv)) (metrics config))"
  show "\<forall>kv\<in>set (metrics config). Metrics d (sprintf_v (fst kv)) = Some (fmtv (snd kv))"
  proof
    fix kv assume kv: "kv \<in> set (metrics config)"
    from map_of_rev_distinct [OF kv dist, of Map.empty "\<lambda>kv. fmtv (snd kv)"] r d
    show "Metrics d (sprintf_v (fst kv)) = Some (fmtv (snd kv))"
      by simp
  qed
qed

theorem metric_names_validated_witness:
  "(\<exists>st'. GetDashboardInfoConfig decodeExact knownMetric sprintf_v_scalar
       (with_metrics [(KStr ''memory'', YStr ''free -m''), (KStr ''bogus'', YNil)]) initial =
         (Inl (Fatal ''Found invalid metric bogus''), st')) \<and>
   (\<exists>d st'. GetDashboardInfoConfig decodeExact knownMetric sprintf_v_scalar
       (with_metrics [(KStr ''memory'', YStr ''free -m''), (KStr ''disk'', YNil)]) initial =
         (Inr d, st') \<and>
       Metrics d ''memory'' = Some ''free -m'' \<and> Metrics d ''disk'' = Some ''<nil>'')"
  using metric_names_validated [of "with_metrics [(KStr ''memory'', YStr ''free -m''), (KStr ''bogus'', YNil)]"
      knownMetric decodeExact sprintf_v_scalar initial]
    metric_names_validated [of "with_metrics [(KStr ''memory'', YStr ''free -m''), (KStr ''disk'', YNil)]"
      knownMetric decodeExact sprintf_v_scalar initial]
  by (simp add: with_metrics_def knownMetric_def run_eval)

subsection \<open>C9: bare leaves\<close>



subsection \<open>C10: ToDriver\<close>

text \<open>
  C10. A connection whose \<open>Type\<close> is any string but \<open>ssh\<close> gets the local driver; the
  result type has no error, so none is reported.
\<close>

theorem ToDriver_not_ssh_is_local:
  "Type conn \<noteq> ''ssh'' \<Longrightarrow> ToDriver conn = DriverLocal"
  by (simp add: ToDriver_def)

theorem ToDriver_not_ssh_is_local_witness:
  "ToDriver (zeroConnection\<lparr>Type := ''local''\<rparr>) = DriverLocal \<and>
   ToDriver zeroConnection = DriverLocal \<and>
   ToDriver (zeroConnection\<lparr>Type := ''SSH'', Port := 22\<rparr>) = DriverLocal"
  using ToDriver_not_ssh_is_local [of "zeroConnection\<lparr>Type := ''local''\<rparr>"]
    ToDriver_not_ssh_is_local [of zeroConnection]
    ToDriver_not_ssh_is_local [of "zeroConnection\<lparr>Type := ''SSH'', Port := 22\<rparr>"]
  by (simp add: zeroConnection_def)

end
